theory Spec2Isabelle
  imports Complex_Main "HOL-Library.Sublist"
begin

section \<open>The session registry of the Playwright MCP server\<close>

text \<open>
  A shallow embedding of the session lifecycle code of \<^verbatim>\<open>src/index.ts\<close> (class
  \<^verbatim>\<open>PlaywrightMCPServer\<close>): the two session maps, the periodic clean-up routines, the
  shutdown handler, the launch and close tools, and the test-script renderers.

  Conventions of the model.
  \<^item> A JavaScript \<^verbatim>\<open>Map\<close> is an association list in insertion order; its keys are
    distinct (the invariant \<open>distinct (map fst m)\<close>).
  \<^item> Objects owned by the automation driver (browsers, contexts, pages, Electron
    applications, write streams) are opaque handles.
  \<^item> Every call that leaves the process is recorded as an \<open>event\<close>; a function of the
    server returns the new server state together with the events it produced, in order.
  \<^item> Timestamps (\<^verbatim>\<open>Date.now()\<close>) are integers; each clock read is a parameter.
  \<^item> An awaited driver call settles as \<open>Resolved\<close> or \<open>Rejected\<close>; which one is given by
    a parameter \<open>env\<close>. Only the shutdown handler is also modelled for a call that never
    settles.
  \<^item> Of the \<^verbatim>\<open>console.error\<close> output only the messages of the \<^verbatim>\<open>catch\<close> blocks are kept.
\<close>

subsection \<open>Data model\<close>

type_synonym handle = nat

type_synonym 'v jsmap = "(string \<times> 'v) list"

record BrowserSession =
  browser :: handle
  browserContext :: handle
  pages :: "handle jsmap"
  lastActivity :: int
  createdAt :: int
  logStreams :: "handle jsmap"

record ElectronSession =
  app :: handle
  mainWindow :: "handle option"
  executablePath :: string
  e_lastActivity :: int
  e_createdAt :: int

record Server =
  sessions :: "BrowserSession jsmap"
  electronSessions :: "ElectronSession jsmap"
  cleanupTimer :: bool
  isShuttingDown :: bool

datatype settle = Resolved | Rejected

datatype event =
    BrowserClose handle
  | AppClose handle
  | StreamWrite handle
  | StreamEnd handle
  | ChromiumLaunch bool
  | NewContext handle "nat \<times> nat"
  | NewPage handle
  | CreateWriteStream handle
  | Exec string
  | ErrorLogged string
  | ClearInterval
  | ProcessExit

definition SESSION_TIMEOUT :: int where
  "SESSION_TIMEOUT = 30 * 60 * 1000"

definition CLEANUP_INTERVAL :: int where
  "CLEANUP_INTERVAL = 5 * 60 * 1000"

definition MAX_MEMORY_MB :: real where
  "MAX_MEMORY_MB = 2048"

text \<open>The shell commands handed to \<^verbatim>\<open>execAsync\<close>.\<close>

definition PS_CMD :: string where
  \<open>PS_CMD = ''ps -p ${process.pid} -o rss=''\<close>

definition PGREP_CMD :: string where
  \<open>PGREP_CMD = ''pgrep -f "headless_shell|chromium" || true''\<close>

definition PKILL_OLDEST_CMD :: string where
  \<open>PKILL_OLDEST_CMD = ''pkill -o -f "headless_shell" || true''\<close>

definition PKILL_CMD :: string where
  \<open>PKILL_CMD = ''pkill -f "headless_shell" || true''\<close>

subsection \<open>Map operations\<close>

definition Map_get :: "'v jsmap \<Rightarrow> string \<Rightarrow> 'v option" where
  "Map_get m k = map_of m k"

definition Map_has :: "'v jsmap \<Rightarrow> string \<Rightarrow> bool" where
  "Map_has m k = (Map_get m k \<noteq> None)"

text \<open>\<^verbatim>\<open>Map.set\<close> overwrites the value of an existing key in place and appends a new key.\<close>

fun Map_set :: "string \<Rightarrow> 'v \<Rightarrow> 'v jsmap \<Rightarrow> 'v jsmap" where
  "Map_set k v [] = [(k, v)]"
| "Map_set k v ((k', v') # m) = (if k' = k then (k, v) # m else (k', v') # Map_set k v m)"

definition Map_delete :: "string \<Rightarrow> 'v jsmap \<Rightarrow> 'v jsmap" where
  "Map_delete k m = filter (\<lambda>e. fst e \<noteq> k) m"

subsection \<open>Idle-timeout clean-up\<close>

text \<open>
  \<^verbatim>\<open>await session.browser.close()\<close> inside \<^verbatim>\<open>try\<close>/\<^verbatim>\<open>catch\<close>: the call is made, and a
  rejection is logged and swallowed.
\<close>

definition tryBrowserClose :: "(handle \<Rightarrow> settle) \<Rightarrow> string \<Rightarrow> BrowserSession \<Rightarrow> event list" where
  "tryBrowserClose env sessionId session =
     BrowserClose (browser session) #
       (case env (browser session) of Resolved \<Rightarrow> [] | Rejected \<Rightarrow> [ErrorLogged sessionId])"

definition tryAppClose :: "(handle \<Rightarrow> settle) \<Rightarrow> string \<Rightarrow> ElectronSession \<Rightarrow> event list" where
  "tryAppClose env sessionId session =
     AppClose (app session) #
       (case env (app session) of Resolved \<Rightarrow> [] | Rejected \<Rightarrow> [ErrorLogged sessionId])"

text \<open>
  The two \<^verbatim>\<open>for ... of\<close> loops of \<^verbatim>\<open>cleanupInactiveSessions\<close>. Each runs over the entries
  of its map and deletes the current entry from the map when the session is idle.
\<close>

fun inactiveBrowserLoop ::
  "(handle \<Rightarrow> settle) \<Rightarrow> int \<Rightarrow> BrowserSession jsmap \<Rightarrow> Server \<times> event list
     \<Rightarrow> Server \<times> event list" where
  "inactiveBrowserLoop env now [] st = st"
| "inactiveBrowserLoop env now ((sessionId, session) # rest) (s, tr) =
     (if now - lastActivity session > SESSION_TIMEOUT
      then inactiveBrowserLoop env now rest
             (s\<lparr>sessions := Map_delete sessionId (sessions s)\<rparr>,
              tr @ tryBrowserClose env sessionId session)
      else inactiveBrowserLoop env now rest (s, tr))"

fun inactiveElectronLoop ::
  "(handle \<Rightarrow> settle) \<Rightarrow> int \<Rightarrow> ElectronSession jsmap \<Rightarrow> Server \<times> event list
     \<Rightarrow> Server \<times> event list" where
  "inactiveElectronLoop env now [] st = st"
| "inactiveElectronLoop env now ((sessionId, session) # rest) (s, tr) =
     (if now - e_lastActivity session > SESSION_TIMEOUT
      then inactiveElectronLoop env now rest
             (s\<lparr>electronSessions := Map_delete sessionId (electronSessions s)\<rparr>,
              tr @ tryAppClose env sessionId session)
      else inactiveElectronLoop env now rest (s, tr))"

definition cleanupInactiveSessions ::
  "(handle \<Rightarrow> settle) \<Rightarrow> int \<Rightarrow> Server \<Rightarrow> Server \<times> event list" where
  "cleanupInactiveSessions env now s =
     (let st = inactiveBrowserLoop env now (sessions s) (s, [])
      in inactiveElectronLoop env now (electronSessions (fst st)) st)"

subsection \<open>Memory-pressure clean-up\<close>

text \<open>
  The \<^verbatim>\<open>for (let i = 0; i < toClose && i < browserSessions.length; i++)\<close> loop of
  \<^verbatim>\<open>cleanupOldestSessions\<close>, over the sorted array.
\<close>

function oldestLoop ::
  "(handle \<Rightarrow> settle) \<Rightarrow> BrowserSession jsmap \<Rightarrow> nat \<Rightarrow> nat \<Rightarrow> Server \<times> event list
     \<Rightarrow> Server \<times> event list" where
  "oldestLoop env browserSessions toClose i (s, tr) =
     (if i < toClose \<and> i < length browserSessions
      then (case browserSessions ! i of
              (sessionId, session) \<Rightarrow>
                oldestLoop env browserSessions toClose (i + 1)
                  (s\<lparr>sessions := Map_delete sessionId (sessions s)\<rparr>,
                   tr @ tryBrowserClose env sessionId session))
      else (s, tr))"
  by pat_completeness auto
termination
  by (relation "measure (\<lambda>(env, browserSessions, toClose, i, st). length browserSessions - i)")
     auto

declare oldestLoop.simps [simp del]

text \<open>
  \<^verbatim>\<open>Array.prototype.sort\<close> is stable, and so is \<^const>\<open>sort_key\<close>. The product
  \<^verbatim>\<open>browserSessions.length * 0.25\<close> is exact in floating point, so the real number is
  what \<^verbatim>\<open>Math.floor\<close> receives.
\<close>

definition cleanupOldestSessions :: "(handle \<Rightarrow> settle) \<Rightarrow> Server \<Rightarrow> Server \<times> event list" where
  "cleanupOldestSessions env s =
     (let browserSessions = sort_key (\<lambda>a. createdAt (snd a)) (sessions s);
          toClose = max 1 (nat \<lfloor>real (length browserSessions) * 0.25\<rfloor>)
      in oldestLoop env browserSessions toClose 0 (s, []))"

text \<open>
  The result of \<^verbatim>\<open>execAsync(`ps -p ${process.pid} -o rss=`)\<close> followed by
  \<^verbatim>\<open>parseInt(stdout.trim())\<close>: the command fails, or the text parses to no number
  (\<^verbatim>\<open>NaN\<close>, for which every comparison is false), or it parses to an integer of kilobytes.
\<close>

datatype ps_result = PsError | PsRss "int option"

definition checkMemoryUsage ::
  "(handle \<Rightarrow> settle) \<Rightarrow> ps_result \<Rightarrow> Server \<Rightarrow> Server \<times> event list" where
  "checkMemoryUsage env ps s =
     (case ps of
        PsError \<Rightarrow> (s, [Exec PS_CMD, ErrorLogged ''memory''])
      | PsRss None \<Rightarrow> (s, [Exec PS_CMD])
      | PsRss (Some rss) \<Rightarrow>
          (let memoryMB = real_of_int rss / 1024
           in if memoryMB > MAX_MEMORY_MB
              then (case cleanupOldestSessions env s of
                      (s', tr) \<Rightarrow> (s', Exec PS_CMD # tr))
              else (s, [Exec PS_CMD])))"

subsection \<open>Zombie processes\<close>

text \<open>
  \<^verbatim>\<open>stdout.trim().split('\n').filter(pid => pid)\<close> on a string of bytes: \<^verbatim>\<open>trim\<close> removes
  the ASCII white space at both ends, \<^verbatim>\<open>split\<close> cuts at every line feed, and the filter
  keeps the non-empty pieces.
\<close>

definition isWhiteSpace :: "char \<Rightarrow> bool" where
  "isWhiteSpace c = (c \<in> {CHR '' '', CHR 0x09, CHR 0x0A, CHR 0x0B, CHR 0x0C, CHR 0x0D})"

definition trim :: "string \<Rightarrow> string" where
  "trim str = rev (dropWhile isWhiteSpace (rev (dropWhile isWhiteSpace str)))"

fun split_lf :: "string \<Rightarrow> string list" where
  "split_lf [] = [[]]"
| "split_lf (c # cs) =
     (if c = CHR 0x0A then [] # split_lf cs
      else (case split_lf cs of [] \<Rightarrow> [[c]] | w # ws \<Rightarrow> (c # w) # ws))"

datatype exec_result = ExecError | Stdout string

definition parsePids :: "string \<Rightarrow> string list" where
  "parsePids stdout = filter (\<lambda>pid. pid \<noteq> []) (split_lf (trim stdout))"

definition cleanupZombieProcesses :: "exec_result \<Rightarrow> Server \<Rightarrow> Server \<times> event list" where
  "cleanupZombieProcesses pgrep s =
     (case pgrep of
        ExecError \<Rightarrow> (s, [Exec PGREP_CMD])
      | Stdout stdout \<Rightarrow>
          (let pids = parsePids stdout
           in if length pids > length (sessions s) * 2
              then (s, [Exec PGREP_CMD,
                        Exec PKILL_OLDEST_CMD])
              else (s, [Exec PGREP_CMD])))"

subsection \<open>Shutdown\<close>

text \<open>
  The \<^verbatim>\<open>cleanup\<close> closure of \<^verbatim>\<open>setupProcessHandlers\<close>. Here a close call may also never
  settle (\<open>None\<close>). Both \<^verbatim>\<open>map(async ...)\<close> calls run every callback up to its
  \<^verbatim>\<open>await\<close>, which makes the close call; \<^verbatim>\<open>Promise.all\<close> then settles when every one of
  the wrapped promises has settled, and a wrapped promise settles when its close call
  does, resolved or rejected. The messages of the \<^verbatim>\<open>catch\<close> blocks are listed in the order
  of the promises.
\<close>

datatype shutdown_result = NoOp | Exited | NeverCompletes

definition closeErrors :: "(handle \<Rightarrow> settle option) \<Rightarrow> string \<Rightarrow> handle list \<Rightarrow> event list" where
  "closeErrors env what hs = map (\<lambda>h. ErrorLogged what) (filter (\<lambda>h. env h = Some Rejected) hs)"

definition cleanup ::
  "(handle \<Rightarrow> settle option) \<Rightarrow> Server \<Rightarrow> Server \<times> event list \<times> shutdown_result" where
  "cleanup env s =
     (if isShuttingDown s then (s, [], NoOp)
      else
        (let s' = s\<lparr>isShuttingDown := True\<rparr>;
             timer = (if cleanupTimer s then [ClearInterval] else []);
             browsers = map (\<lambda>session. browser session) (map snd (sessions s));
             apps = map (\<lambda>session. app session) (map snd (electronSessions s));
             started = map BrowserClose browsers @ map AppClose apps;
             errors = closeErrors env ''browser'' browsers @ closeErrors env ''electron app'' apps
         in if \<forall>h \<in> set (browsers @ apps). env h \<noteq> None
            then (s', timer @ started @ errors @ [Exec PKILL_CMD, ProcessExit],
                  Exited)
            else (s', timer @ started @ errors, NeverCompletes)))"

text \<open>
  Several triggers of the handler, one after the other. A later trigger may arrive while
  an earlier one is still waiting; the earlier one has changed the state for the last time
  before its first \<^verbatim>\<open>await\<close>, so the later one sees the state that \<^const>\<open>cleanup\<close> returns.
\<close>

fun cleanupCalls :: "(handle \<Rightarrow> settle option) list \<Rightarrow> Server \<Rightarrow> Server \<times> event list" where
  "cleanupCalls [] s = (s, [])"
| "cleanupCalls (env # envs) s =
     (case cleanup env s of
        (s1, tr1, r) \<Rightarrow> (case cleanupCalls envs s1 of (s2, tr2) \<Rightarrow> (s2, tr1 @ tr2)))"

subsection \<open>Activity, launch and close\<close>

text \<open>\<^verbatim>\<open>updateSessionActivity\<close> reads the clock once for each of the two maps.\<close>

definition updateSessionActivity :: "int \<Rightarrow> int \<Rightarrow> string \<Rightarrow> Server \<Rightarrow> Server" where
  "updateSessionActivity now1 now2 sessionId s =
     (let s1 = (case Map_get (sessions s) sessionId of
                  None \<Rightarrow> s
                | Some session \<Rightarrow>
                    s\<lparr>sessions := Map_set sessionId (session\<lparr>lastActivity := now1\<rparr>) (sessions s)\<rparr>)
      in case Map_get (electronSessions s1) sessionId of
           None \<Rightarrow> s1
         | Some electronSession \<Rightarrow>
             s1\<lparr>electronSessions :=
                  Map_set sessionId (electronSession\<lparr>e_lastActivity := now2\<rparr>) (electronSessions s1)\<rparr>)"

text \<open>
  \<^verbatim>\<open>setupPageLogging\<close>: the stream that \<^verbatim>\<open>createWriteStream\<close> returns is stored under the
  page name and receives the four header lines. The listeners it registers on the page
  are not part of the model.
\<close>

definition setupPageLogging ::
  "handle \<Rightarrow> string \<Rightarrow> string \<Rightarrow> handle \<Rightarrow> Server \<Rightarrow> Server \<times> event list" where
  "setupPageLogging logStream sessionId pageId page s =
     (case Map_get (sessions s) sessionId of
        None \<Rightarrow> (s, [])
      | Some session \<Rightarrow>
          (s\<lparr>sessions :=
               Map_set sessionId
                 (session\<lparr>logStreams := Map_set pageId logStream (logStreams session)\<rparr>)
                 (sessions s)\<rparr>,
           [CreateWriteStream logStream, StreamWrite logStream, StreamWrite logStream,
            StreamWrite logStream, StreamWrite logStream]))"

record LaunchArgs =
  a_sessionId :: string
  headless :: "bool option"
  viewport :: "(nat \<times> nat) option"

text \<open>
  What the driver answers during one \<^verbatim>\<open>launchBrowser\<close>: each of the three awaited calls
  gives a handle or rejects with a message (\<open>Inl\<close>).
\<close>

record LaunchEnv =
  launchResult :: "string + handle"
  newContextResult :: "string + handle"
  newPageResult :: "string + handle"
  newLogStream :: handle
  launchClock :: int

definition showBool :: "bool \<Rightarrow> string" where
  "showBool b = (if b then ''true'' else ''false'')"

text \<open>The result of a tool function: the text of its answer, or (\<open>Inl\<close>) a thrown error.\<close>

definition launchBrowser ::
  "LaunchEnv \<Rightarrow> LaunchArgs \<Rightarrow> Server \<Rightarrow> Server \<times> event list \<times> (string + string)" where
  "launchBrowser drv args s =
     (let hl = (case headless args of None \<Rightarrow> True | Some b \<Rightarrow> b);
          vp = (case viewport args of None \<Rightarrow> (1920, 1080) | Some v \<Rightarrow> v)
      in if Map_has (sessions s) (a_sessionId args)
         then (s, [], Inr (''Session '' @ a_sessionId args @ '' already exists''))
         else
           (case launchResult drv of
              Inl err \<Rightarrow> (s, [ChromiumLaunch hl], Inl err)
            | Inr b \<Rightarrow>
               (case newContextResult drv of
                  Inl err \<Rightarrow> (s, [ChromiumLaunch hl, NewContext b vp], Inl err)
                | Inr c \<Rightarrow>
                   (case newPageResult drv of
                      Inl err \<Rightarrow> (s, [ChromiumLaunch hl, NewContext b vp, NewPage c], Inl err)
                    | Inr page \<Rightarrow>
                       (let session = \<lparr>browser = b, browserContext = c,
                                       pages = [(''main'', page)],
                                       lastActivity = launchClock drv,
                                       createdAt = launchClock drv,
                                       logStreams = []\<rparr>;
                            s1 = s\<lparr>sessions := Map_set (a_sessionId args) session (sessions s)\<rparr>
                        in case setupPageLogging (newLogStream drv) (a_sessionId args) ''main'' page s1 of
                             (s2, tr) \<Rightarrow>
                               (s2, [ChromiumLaunch hl, NewContext b vp, NewPage c] @ tr,
                                Inr (''Browser launched with session ID: '' @ a_sessionId args
                                       @ '' (headless: '' @ showBool hl @ '')'')))))))"

text \<open>\<^verbatim>\<open>closeLogStreams\<close>: every stream of the session gets the footer and is ended.\<close>

definition closeLogStreams :: "string \<Rightarrow> Server \<Rightarrow> Server \<times> event list" where
  "closeLogStreams sessionId s =
     (case Map_get (sessions s) sessionId of
        None \<Rightarrow> (s, [])
      | Some session \<Rightarrow>
          (s\<lparr>sessions := Map_set sessionId (session\<lparr>logStreams := []\<rparr>) (sessions s)\<rparr>,
           concat (map (\<lambda>(pageId, stream). [StreamWrite stream, StreamEnd stream])
                       (logStreams session))))"

definition closeBrowser ::
  "(handle \<Rightarrow> settle) \<Rightarrow> string \<Rightarrow> Server \<Rightarrow> Server \<times> event list \<times> (string + string)" where
  "closeBrowser env sessionId s =
     (case Map_get (sessions s) sessionId of
        None \<Rightarrow> (s, [], Inr (''Session '' @ sessionId @ '' not found''))
      | Some session \<Rightarrow>
          (case closeLogStreams sessionId s of
             (s1, tr) \<Rightarrow>
               (s1\<lparr>sessions := Map_delete sessionId (sessions s1)\<rparr>,
                tr @ tryBrowserClose env sessionId session,
                Inr (''Browser session '' @ sessionId @ '' closed''))))"

definition closeElectron ::
  "(handle \<Rightarrow> settle) \<Rightarrow> string \<Rightarrow> Server \<Rightarrow> Server \<times> event list \<times> (string + string)" where
  "closeElectron env sessionId s =
     (case Map_get (electronSessions s) sessionId of
        None \<Rightarrow> (s, [], Inr (''Electron session '' @ sessionId @ '' not found''))
      | Some session \<Rightarrow>
          (s\<lparr>electronSessions := Map_delete sessionId (electronSessions s)\<rparr>,
           tryAppClose env sessionId session,
           Inr (''Electron session '' @ sessionId @ '' closed'')))"

text \<open>
  The request handler, for the three tools above. A call whose \<^verbatim>\<open>sessionId\<close> is truthy
  (a non-empty string) refreshes the activity of that session first; a thrown error
  becomes the answer \<^verbatim>\<open>Error: ...\<close>.
\<close>

datatype tool_call =
    browser_launch LaunchArgs
  | browser_close string
  | electron_close string

record CallEnv =
  closeEnv :: "handle \<Rightarrow> settle"
  launchEnv :: LaunchEnv
  clock1 :: int
  clock2 :: int

definition callSessionId :: "tool_call \<Rightarrow> string" where
  "callSessionId call =
     (case call of browser_launch args \<Rightarrow> a_sessionId args
                 | browser_close sid \<Rightarrow> sid
                 | electron_close sid \<Rightarrow> sid)"

definition callTool :: "CallEnv \<Rightarrow> tool_call \<Rightarrow> Server \<Rightarrow> Server \<times> event list \<times> string" where
  "callTool ce call s =
     (let s0 = (if callSessionId call \<noteq> []
                then updateSessionActivity (clock1 ce) (clock2 ce) (callSessionId call) s
                else s);
          r = (case call of
                 browser_launch args \<Rightarrow> launchBrowser (launchEnv ce) args s0
               | browser_close sid \<Rightarrow> closeBrowser (closeEnv ce) sid s0
               | electron_close sid \<Rightarrow> closeElectron (closeEnv ce) sid s0)
      in case r of
           (s', tr, Inr text) \<Rightarrow> (s', tr, text)
         | (s', tr, Inl message) \<Rightarrow> (s', tr, ''Error: '' @ message))"

text \<open>A sequence of tool calls, each with its own answers from the outside.\<close>

fun callTools :: "(CallEnv \<times> tool_call) list \<Rightarrow> Server \<Rightarrow> Server \<times> event list \<times> string list" where
  "callTools [] s = (s, [], [])"
| "callTools ((ce, call) # calls) s =
     (case callTool ce call s of
        (s1, tr1, text) \<Rightarrow>
          (case callTools calls s1 of
             (s2, tr2, texts) \<Rightarrow> (s2, tr1 @ tr2, text # texts)))"

subsection \<open>Test-script rendering\<close>
























subsection \<open>What a run did to the outside\<close>

fun closedBrowsers :: "event list \<Rightarrow> handle list" where
  "closedBrowsers [] = []"
| "closedBrowsers (BrowserClose h # tr) = h # closedBrowsers tr"
| "closedBrowsers (e # tr) = closedBrowsers tr"

fun closedApps :: "event list \<Rightarrow> handle list" where
  "closedApps [] = []"
| "closedApps (AppClose h # tr) = h # closedApps tr"
| "closedApps (e # tr) = closedApps tr"

fun endedStreams :: "event list \<Rightarrow> handle list" where
  "endedStreams [] = []"
| "endedStreams (StreamEnd h # tr) = h # endedStreams tr"
| "endedStreams (e # tr) = endedStreams tr"

fun launches :: "event list \<Rightarrow> nat" where
  "launches [] = 0"
| "launches (ChromiumLaunch hl # tr) = Suc (launches tr)"
| "launches (e # tr) = launches tr"

subsection \<open>Example states\<close>

definition mkSession :: "handle \<Rightarrow> int \<Rightarrow> int \<Rightarrow> handle jsmap \<Rightarrow> BrowserSession" where
  "mkSession b created active streams =
     \<lparr>browser = b, browserContext = b + 100, pages = [(''main'', b + 200)],
      lastActivity = active, createdAt = created, logStreams = streams\<rparr>"

definition mkElectron :: "handle \<Rightarrow> int \<Rightarrow> int \<Rightarrow> ElectronSession" where
  "mkElectron a created active =
     \<lparr>app = a, mainWindow = Some (a + 200), executablePath = ''/opt/app'',
      e_lastActivity = active, e_createdAt = created\<rparr>"

text \<open>
  Four browser sessions and two Electron sessions. At the time \<open>2000000\<close> the sessions
  \<open>a\<close>, \<open>d\<close> and \<open>e\<close> have been idle for longer than the timeout, \<open>b\<close> for exactly the
  timeout. The sessions \<open>b\<close> and \<open>c\<close> are the oldest browser sessions, created at the same
  time; the Electron session \<open>e\<close> is older than both.
\<close>

definition example_server :: Server where
  "example_server =
     \<lparr>sessions = [(''a'', mkSession 1 30 150000 [(''main'', 11)]),
                  (''b'', mkSession 2 10 200000 [(''main'', 12)]),
                  (''c'', mkSession 3 10 1999000 []),
                  (''d'', mkSession 4 20 0 [(''main'', 14)])],
      electronSessions = [(''e'', mkElectron 5 1 0), (''f'', mkElectron 6 40 1999999)],
      cleanupTimer = True,
      isShuttingDown = False\<rparr>"

text \<open>One browser session and one Electron session.\<close>

definition small_server :: Server where
  "small_server =
     \<lparr>sessions = [(''a'', mkSession 1 30 150000 [(''main'', 11)])],
      electronSessions = [(''e'', mkElectron 5 1 0)],
      cleanupTimer = True,
      isShuttingDown = False\<rparr>"

definition three_pids :: string where
  "three_pids = ''101'' @ [CHR 0x0A] @ ''102'' @ [CHR 0x0A] @ ''103'' @ [CHR 0x0A]"

definition all_rejected :: "handle \<Rightarrow> settle" where
  "all_rejected h = Rejected"

text \<open>The close of the browser \<open>2\<close> never settles; every other close resolves.\<close>

definition one_hangs :: "handle \<Rightarrow> settle option" where
  "one_hangs h = (if h = 2 then None else Some Resolved)"

definition all_settle :: "handle \<Rightarrow> settle option" where
  "all_settle h = (if h = 2 then Some Rejected else Some Resolved)"

text \<open>A request to launch a browser under the id \<open>a\<close>, which exists in the examples.\<close>

definition example_call_env :: CallEnv where
  "example_call_env =
     \<lparr>closeEnv = all_rejected,
      launchEnv = \<lparr>launchResult = Inr 7, newContextResult = Inr 107, newPageResult = Inr 207,
                    newLogStream = 17, launchClock = 2000000\<rparr>,
      clock1 = 2000000,
      clock2 = 2000000\<rparr>"

definition relaunch_a :: tool_call where
  "relaunch_a = browser_launch \<lparr>a_sessionId = ''a'', headless = None, viewport = None\<rparr>"

text \<open>
  A request to launch a browser under the id \<open>e\<close>, which no browser session has and an
  Electron session has, and a later moment for a repeated request.
\<close>

definition launch_e :: tool_call where
  "launch_e = browser_launch \<lparr>a_sessionId = ''e'', headless = None, viewport = None\<rparr>"

definition later_call_env :: CallEnv where
  "later_call_env = example_call_env\<lparr>clock1 := 2000500, clock2 := 2000501\<rparr>"




section \<open>Properties\<close>

text \<open>
  Each claim is stated in words before its theorem. A theorem with a hypothesis is
  followed by an instance at one of the example states.
\<close>

subsection \<open>Memory-pressure eviction closes the oldest quarter\<close>

lemma toClose_floor: "nat \<lfloor>real n * 0.25\<rfloor> = n div 4"
proof -
  have "real n * 0.25 = of_nat n / of_nat 4" by simp
  then have "\<lfloor>real n * 0.25\<rfloor> = \<lfloor>(of_nat n :: real) / of_nat 4\<rfloor>" by simp
  also have "\<dots> = of_nat (n div 4)" by (rule floor_divide_of_nat_eq)
  finally show ?thesis by simp
qed

lemma oldestLoop_eq:
  "oldestLoop env bs k i (s, tr) =
     (s\<lparr>sessions := filter (\<lambda>e. fst e \<notin> fst ` set (take (k - i) (drop i bs))) (sessions s)\<rparr>,
      tr @ concat (map (\<lambda>e. tryBrowserClose env (fst e) (snd e)) (take (k - i) (drop i bs))))"
proof (induction env bs k i "(s, tr)" arbitrary: s tr rule: oldestLoop.induct)
  case (1 env bs k i s tr)
  show ?case
  proof (cases "i < k \<and> i < length bs")
    case True
    obtain sid x where b: "bs ! i = (sid, x)" by (cases "bs ! i")
    from True have ki: "k - i = Suc (k - (i + 1))" by auto
    from True have dr: "drop i bs = (sid, x) # drop (i + 1) bs"
      using b by (simp add: Cons_nth_drop_Suc [symmetric])
    have tk: "take (k - i) (drop i bs) = (sid, x) # take (k - (i + 1)) (drop (i + 1) bs)"
      by (simp only: ki dr take_Suc_Cons)
    have step: "oldestLoop env bs k i (s, tr) =
        oldestLoop env bs k (i + 1)
          (s\<lparr>sessions := Map_delete sid (sessions s)\<rparr>, tr @ tryBrowserClose env sid x)"
      using True b by (subst oldestLoop.simps) simp
    have ih: "oldestLoop env bs k (i + 1)
          (s\<lparr>sessions := Map_delete sid (sessions s)\<rparr>, tr @ tryBrowserClose env sid x) =
        (s\<lparr>sessions := filter (\<lambda>e. fst e \<notin> fst ` set (take (k - (i + 1)) (drop (i + 1) bs)))
            (Map_delete sid (sessions s))\<rparr>,
         (tr @ tryBrowserClose env sid x) @
           concat (map (\<lambda>e. tryBrowserClose env (fst e) (snd e)) (take (k - (i + 1)) (drop (i + 1) bs))))"
      using "1.hyps" [OF True b [symmetric]] by simp
    have flt: "filter (\<lambda>e. fst e \<notin> fst ` set (take (k - (i + 1)) (drop (i + 1) bs)))
            (Map_delete sid (sessions s)) =
          filter (\<lambda>e. fst e \<notin> fst ` set ((sid, x) # take (k - (i + 1)) (drop (i + 1) bs)))
            (sessions s)"
      unfolding Map_delete_def filter_filter by (rule filter_cong) auto
    show ?thesis
      unfolding step ih tk flt by simp
  next
    case False
    then have tk0: "take (k - i) (drop i bs) = []" by auto
    have "oldestLoop env bs k i (s, tr) = (s, tr)"
      using False by (subst oldestLoop.simps) auto
    then show ?thesis by (simp add: tk0)
  qed
qed

lemma filter_keeps_order:
  "filter P xs = A @ v # B @ r # C \<Longrightarrow> \<exists>as bs cs. xs = as @ v # bs @ r # cs"
proof (induction xs arbitrary: A)
  case Nil
  then show ?case by simp
next
  case (Cons x xs)
  show ?case
  proof (cases "P x")
    case False
    with Cons.prems have "filter P xs = A @ v # B @ r # C" by simp
    from Cons.IH [OF this] obtain as bs cs where "xs = as @ v # bs @ r # cs" by blast
    then have "x # xs = (x # as) @ v # bs @ r # cs" by simp
    then show ?thesis by blast
  next
    case True
    show ?thesis
    proof (cases A)
      case Nil
      with True Cons.prems have xv: "x = v" and rest: "filter P xs = B @ r # C" by simp_all
      from rest have "r \<in> set (filter P xs)" by simp
      then have "r \<in> set xs" by simp
      then obtain bs cs where "xs = bs @ r # cs" by (meson split_list)
      with xv have "x # xs = [] @ v # bs @ r # cs" by simp
      then show ?thesis by blast
    next
      case (Cons a A')
      with True Cons.prems have "filter P xs = A' @ v # B @ r # C" by simp
      from Cons.IH [OF this] obtain as bs cs where "xs = as @ v # bs @ r # cs" by blast
      then have "x # xs = (x # as) @ v # bs @ r # cs" by simp
      then show ?thesis by blast
    qed
  qed
qed

lemma stable_take_before:
  assumes v: "v \<in> set (take k (sort_key f xs))"
    and r: "r \<in> set xs" "r \<notin> set (take k (sort_key f xs))"
    and eq: "f v = f r"
  shows "\<exists>as bs cs. xs = as @ v # bs @ r # cs"
proof -
  let ?ys = "sort_key f xs"
  let ?P = "\<lambda>y. f y = f v"
  have "r \<in> set ?ys" using r(1) by simp
  then have "r \<in> set (take k ?ys @ drop k ?ys)" by simp
  with r(2) have "r \<in> set (drop k ?ys)" by (simp del: append_take_drop_id)
  then obtain b1 b2 where d: "drop k ?ys = b1 @ r # b2" by (meson split_list)
  from v obtain a1 a2 where t: "take k ?ys = a1 @ v # a2" by (meson split_list)
  have "?ys = take k ?ys @ drop k ?ys" by simp
  then have ys: "?ys = a1 @ v # a2 @ b1 @ r # b2" unfolding t d by simp
  have "filter ?P xs = filter ?P ?ys" by (rule sort_key_stable [symmetric])
  also have "\<dots> = filter ?P a1 @ v # filter ?P (a2 @ b1) @ r # filter ?P b2"
    unfolding ys using eq by simp
  finally show ?thesis by (rule filter_keeps_order)
qed

lemma sorted_take_le_rest:
  assumes v: "v \<in> set (take k (sort_key f xs))"
    and r: "r \<in> set xs" "r \<notin> set (take k (sort_key f xs))"
  shows "f v \<le> f r"
proof -
  let ?ys = "sort_key f xs"
  have "r \<in> set (take k ?ys @ drop k ?ys)" using r(1) by simp
  with r(2) have rd: "r \<in> set (drop k ?ys)" by (simp del: append_take_drop_id)
  have "sorted (map f (take k ?ys @ drop k ?ys))" by simp
  then have "\<forall>a \<in> set (take k ?ys). \<forall>b \<in> set (drop k ?ys). f a \<le> f b"
    unfolding map_append sorted_append by auto
  with v rd show ?thesis by blast
qed

lemma closedBrowsers_append: "closedBrowsers (a @ b) = closedBrowsers a @ closedBrowsers b"
  by (induction a rule: closedBrowsers.induct) simp_all

lemma closedBrowsers_try: "closedBrowsers (tryBrowserClose env sid x) = [browser x]"
  by (simp add: tryBrowserClose_def split: settle.split)

lemma closedBrowsers_tries:
  "closedBrowsers (concat (map (\<lambda>e. tryBrowserClose env (fst e) (snd e)) es)) = map (\<lambda>e. browser (snd e)) es"
  by (induction es) (simp_all add: closedBrowsers_append closedBrowsers_try)

lemma cleanupOldestSessions_eq:
  "cleanupOldestSessions env s =
     (s\<lparr>sessions := filter (\<lambda>e. fst e \<notin> fst ` set (take (max 1 (length (sessions s) div 4))
                                  (sort_key (\<lambda>a. createdAt (snd a)) (sessions s)))) (sessions s)\<rparr>,
      concat (map (\<lambda>e. tryBrowserClose env (fst e) (snd e))
        (take (max 1 (length (sessions s) div 4)) (sort_key (\<lambda>a. createdAt (snd a)) (sessions s)))))"
  unfolding cleanupOldestSessions_def Let_def oldestLoop_eq toClose_floor length_sort
  by simp

lemma filter_keys_subset:
  assumes "distinct (map fst xs)" "set vs \<subseteq> set xs"
  shows "filter (\<lambda>e. fst e \<notin> fst ` set vs) xs = filter (\<lambda>e. e \<notin> set vs) xs"
proof (rule filter_cong [OF refl])
  fix e assume e: "e \<in> set xs"
  from assms(1) have inj: "inj_on fst (set xs)" by (simp add: distinct_map)
  show "(fst e \<notin> fst ` set vs) = (e \<notin> set vs)"
  proof
    assume "fst e \<notin> fst ` set vs" then show "e \<notin> set vs" by blast
  next
    assume n: "e \<notin> set vs"
    show "fst e \<notin> fst ` set vs"
    proof
      assume "fst e \<in> fst ` set vs"
      then obtain x where x: "x \<in> set vs" "fst e = fst x" by blast
      with assms(2) have "x \<in> set xs" by blast
      with inj e x(2) have "e = x" by (simp add: inj_on_def)
      with x n show False by simp
    qed
  qed
qed

text \<open>
  Claim C5. When the memory check runs with at least one browser session and measures
  more than \<open>MAX_MEMORY_MB\<close>, it closes and removes exactly
  \<open>max 1 \<lfloor>0.25 * N\<rfloor>\<close> browser sessions, where \<open>N\<close> is their number: the first ones of
  the sessions sorted by \<open>createdAt\<close>. Every closed session is at most as old as every
  remaining one, and where a closed and a remaining session have the same \<open>createdAt\<close>
  the closed one comes first in the iteration order of the map.
\<close>

theorem memory_pressure_closes_oldest_quarter:
  fixes s :: Server
  defines "victims \<equiv> take (max 1 (length (sessions s) div 4))
                          (sort_key (\<lambda>a. createdAt (snd a)) (sessions s))"
  assumes dist: "distinct (map fst (sessions s))"
    and nonempty: "sessions s \<noteq> []"
    and high: "real_of_int rss / 1024 > MAX_MEMORY_MB"
    and run: "checkMemoryUsage env (PsRss (Some rss)) s = (s', tr)"
  shows "length victims = max 1 (nat \<lfloor>0.25 * real (length (sessions s))\<rfloor>)
       \<and> closedBrowsers tr = map (\<lambda>e. browser (snd e)) victims
       \<and> sessions s' = filter (\<lambda>e. e \<notin> set victims) (sessions s)
       \<and> length (sessions s') = length (sessions s) - max 1 (nat \<lfloor>0.25 * real (length (sessions s))\<rfloor>)
       \<and> set victims \<subseteq> set (sessions s)
       \<and> (\<forall>v \<in> set victims. \<forall>r \<in> set (sessions s').
             createdAt (snd v) \<le> createdAt (snd r)
           \<and> (createdAt (snd v) = createdAt (snd r)
                \<longrightarrow> (\<exists>as bs cs. sessions s = as @ v # bs @ r # cs)))"
proof -
  let ?xs = "sessions s"
  let ?k = "max 1 (length ?xs div 4)"
  have "0.25 * real (length ?xs) = real (length ?xs) * 0.25" by simp
  then have fl: "nat \<lfloor>0.25 * real (length ?xs)\<rfloor> = length ?xs div 4"
    by (simp only: toClose_floor)
  from nonempty have kle: "?k \<le> length ?xs" by (cases ?xs) auto
  have len: "length victims = ?k" unfolding victims_def using kle by simp
  have sub: "set victims \<subseteq> set ?xs"
    unfolding victims_def using set_take_subset [of ?k "sort_key (\<lambda>a. createdAt (snd a)) ?xs"] by simp
  from run high have s': "s' = s\<lparr>sessions := filter (\<lambda>e. fst e \<notin> fst ` set victims) ?xs\<rparr>"
    and tr: "tr = Exec PS_CMD # concat (map (\<lambda>e. tryBrowserClose env (fst e) (snd e)) victims)"
    unfolding victims_def by (simp_all add: checkMemoryUsage_def cleanupOldestSessions_eq Let_def)
  have rem: "sessions s' = filter (\<lambda>e. e \<notin> set victims) ?xs"
    unfolding s' using filter_keys_subset [OF dist sub] by simp
  have closed: "closedBrowsers tr = map (\<lambda>e. browser (snd e)) victims"
    unfolding tr by (simp add: closedBrowsers_tries)
  have dxs: "distinct ?xs" using dist by (simp add: distinct_map)
  have dv: "distinct victims" unfolding victims_def using dxs by (simp add: distinct_take)
  have "length (sessions s') = card ({e. e \<notin> set victims} \<inter> set ?xs)"
    unfolding rem using dxs by (rule distinct_length_filter)
  also have "{e. e \<notin> set victims} \<inter> set ?xs = set ?xs - set victims" by blast
  also have "card (set ?xs - set victims) = card (set ?xs) - card (set victims)"
    using sub by (simp add: card_Diff_subset)
  also have "\<dots> = length ?xs - ?k"
    using dxs dv len by (simp add: distinct_card)
  finally have lrem: "length (sessions s') = length ?xs - ?k" .
  have order: "\<forall>v \<in> set victims. \<forall>r \<in> set (sessions s').
             createdAt (snd v) \<le> createdAt (snd r)
           \<and> (createdAt (snd v) = createdAt (snd r)
                \<longrightarrow> (\<exists>as bs cs. ?xs = as @ v # bs @ r # cs))"
  proof (intro ballI conjI impI)
    fix v r assume v: "v \<in> set victims" and r: "r \<in> set (sessions s')"
    from r have r1: "r \<in> set ?xs" and r2: "r \<notin> set victims" unfolding rem by simp_all
    show "createdAt (snd v) \<le> createdAt (snd r)"
      using sorted_take_le_rest [of v ?k "\<lambda>a. createdAt (snd a)" ?xs r] v r1 r2
      unfolding victims_def by simp
    assume "createdAt (snd v) = createdAt (snd r)"
    then show "\<exists>as bs cs. ?xs = as @ v # bs @ r # cs"
      using stable_take_before [of v ?k "\<lambda>a. createdAt (snd a)" ?xs r] v r1 r2
      unfolding victims_def by simp
  qed
  show ?thesis unfolding fl using len closed rem lrem sub order by blast
qed

theorem memory_pressure_closes_oldest_quarter_witness:
  "distinct (map fst (sessions example_server))
   \<and> sessions example_server \<noteq> []
   \<and> real_of_int 3000000 / 1024 > MAX_MEMORY_MB
   \<and> closedBrowsers (snd (checkMemoryUsage all_rejected (PsRss (Some 3000000)) example_server)) = [2]
   \<and> map fst (sessions (fst (checkMemoryUsage all_rejected (PsRss (Some 3000000)) example_server)))
         = [''a'', ''c'', ''d'']"
proof -
  have h1: "distinct (map fst (sessions example_server))" by (simp add: example_server_def mkSession_def mkElectron_def)
  have h2: "sessions example_server \<noteq> []" by (simp add: example_server_def mkSession_def mkElectron_def)
  have h3: "real_of_int 3000000 / 1024 > MAX_MEMORY_MB" by (simp add: MAX_MEMORY_MB_def)
  have h4: "checkMemoryUsage all_rejected (PsRss (Some 3000000)) example_server =
      (fst (checkMemoryUsage all_rejected (PsRss (Some 3000000)) example_server),
       snd (checkMemoryUsage all_rejected (PsRss (Some 3000000)) example_server))" by simp
  have v: "take (max 1 (length (sessions example_server) div 4))
             (sort_key (\<lambda>a. createdAt (snd a)) (sessions example_server))
           = [(''b'', mkSession 2 10 200000 [(''main'', 12)])]"
    by (simp add: example_server_def mkSession_def mkElectron_def)
  note t = memory_pressure_closes_oldest_quarter [OF h1 h2 h3 h4, unfolded v]
  from t have c: "closedBrowsers (snd (checkMemoryUsage all_rejected (PsRss (Some 3000000)) example_server)) = [2]"
    by (simp add: mkSession_def)
  from t have "sessions (fst (checkMemoryUsage all_rejected (PsRss (Some 3000000)) example_server))
     = filter (\<lambda>e. e \<notin> set [(''b'', mkSession 2 10 200000 [(''main'', 12)])]) (sessions example_server)"
    by blast
  then have r: "map fst (sessions (fst (checkMemoryUsage all_rejected (PsRss (Some 3000000)) example_server)))
         = [''a'', ''c'', ''d'']"
    by (simp add: example_server_def mkSession_def mkElectron_def)
  from h1 h2 h3 c r show ?thesis by blast
qed

subsection \<open>Idle-timeout eviction\<close>

lemma filter_keys_distinct:
  assumes "distinct (map fst xs)"
  shows "filter (\<lambda>e. fst e \<notin> fst ` {x \<in> set xs. P x}) xs = filter (\<lambda>e. \<not> P e) xs"
proof (rule filter_cong[OF refl])
  fix e assume e: "e \<in> set xs"
  from assms have inj: "inj_on fst (set xs)" by (simp add: distinct_map)
  show "(fst e \<notin> fst ` {x \<in> set xs. P x}) = (\<not> P e)"
  proof
    assume "fst e \<notin> fst ` {x \<in> set xs. P x}"
    with e show "\<not> P e" by blast
  next
    assume np: "\<not> P e"
    show "fst e \<notin> fst ` {x \<in> set xs. P x}"
    proof
      assume "fst e \<in> fst ` {x \<in> set xs. P x}"
      then obtain x where x: "x \<in> set xs" "P x" "fst e = fst x" by blast
      with inj e have "e = x" by (simp add: inj_on_def)
      with x np show False by simp
    qed
  qed
qed

lemma inactiveBrowserLoop_eq:
  "inactiveBrowserLoop env now es (s, tr) =
     (s\<lparr>sessions := filter (\<lambda>e. fst e \<notin> fst ` set (filter (\<lambda>e. now - lastActivity (snd e) > SESSION_TIMEOUT) es)) (sessions s)\<rparr>,
      tr @ concat (map (\<lambda>e. tryBrowserClose env (fst e) (snd e)) (filter (\<lambda>e. now - lastActivity (snd e) > SESSION_TIMEOUT) es)))"
proof (induction es arbitrary: s tr)
  case Nil
  show ?case by simp
next
  case (Cons a es)
  obtain sid x where a: "a = (sid, x)" by (cases a)
  show ?case unfolding a
    by (auto simp: Cons.IH Map_delete_def intro!: filter_cong)
qed

lemma inactiveElectronLoop_eq:
  "inactiveElectronLoop env now es (s, tr) =
     (s\<lparr>electronSessions := filter (\<lambda>e. fst e \<notin> fst ` set (filter (\<lambda>e. now - e_lastActivity (snd e) > SESSION_TIMEOUT) es)) (electronSessions s)\<rparr>,
      tr @ concat (map (\<lambda>e. tryAppClose env (fst e) (snd e)) (filter (\<lambda>e. now - e_lastActivity (snd e) > SESSION_TIMEOUT) es)))"
proof (induction es arbitrary: s tr)
  case Nil
  show ?case by simp
next
  case (Cons a es)
  obtain sid x where a: "a = (sid, x)" by (cases a)
  show ?case unfolding a
    by (auto simp: Cons.IH Map_delete_def intro!: filter_cong)
qed

lemma cleanupInactiveSessions_raw:
  "cleanupInactiveSessions env now s =
     (s\<lparr>sessions := filter (\<lambda>e. fst e \<notin> fst ` {x \<in> set (sessions s). now - lastActivity (snd x) > SESSION_TIMEOUT}) (sessions s),
        electronSessions := filter (\<lambda>e. fst e \<notin> fst ` {x \<in> set (electronSessions s). now - e_lastActivity (snd x) > SESSION_TIMEOUT}) (electronSessions s)\<rparr>,
      concat (map (\<lambda>e. tryBrowserClose env (fst e) (snd e)) (filter (\<lambda>e. now - lastActivity (snd e) > SESSION_TIMEOUT) (sessions s)))
      @ concat (map (\<lambda>e. tryAppClose env (fst e) (snd e)) (filter (\<lambda>e. now - e_lastActivity (snd e) > SESSION_TIMEOUT) (electronSessions s))))"
  by (simp add: cleanupInactiveSessions_def inactiveBrowserLoop_eq inactiveElectronLoop_eq Let_def)

lemma cleanupInactiveSessions_eq:
  assumes "distinct (map fst (sessions s))" "distinct (map fst (electronSessions s))"
  shows "cleanupInactiveSessions env now s =
     (s\<lparr>sessions := filter (\<lambda>e. \<not> now - lastActivity (snd e) > SESSION_TIMEOUT) (sessions s),
        electronSessions := filter (\<lambda>e. \<not> now - e_lastActivity (snd e) > SESSION_TIMEOUT) (electronSessions s)\<rparr>,
      concat (map (\<lambda>e. tryBrowserClose env (fst e) (snd e)) (filter (\<lambda>e. now - lastActivity (snd e) > SESSION_TIMEOUT) (sessions s)))
      @ concat (map (\<lambda>e. tryAppClose env (fst e) (snd e)) (filter (\<lambda>e. now - e_lastActivity (snd e) > SESSION_TIMEOUT) (electronSessions s))))"
  unfolding cleanupInactiveSessions_raw
  using assms by (simp add: filter_keys_distinct)

lemma closedApps_append: "closedApps (a @ b) = closedApps a @ closedApps b"
  by (induction a rule: closedApps.induct) simp_all

lemma closedApps_tryApp: "closedApps (tryAppClose env sid x) = [app x]"
  by (simp add: tryAppClose_def split: settle.split)

lemma closedApps_tryBrowser: "closedApps (tryBrowserClose env sid x) = []"
  by (simp add: tryBrowserClose_def split: settle.split)

lemma closedBrowsers_tryApp: "closedBrowsers (tryAppClose env sid x) = []"
  by (simp add: tryAppClose_def split: settle.split)

lemma closedApps_appTries:
  "closedApps (concat (map (\<lambda>e. tryAppClose env (fst e) (snd e)) es)) = map (\<lambda>e. app (snd e)) es"
  by (induction es) (simp_all add: closedApps_append closedApps_tryApp)

lemma closedApps_browserTries:
  "closedApps (concat (map (\<lambda>e. tryBrowserClose env (fst e) (snd e)) es)) = []"
  by (induction es) (simp_all add: closedApps_append closedApps_tryBrowser)

lemma closedBrowsers_appTries:
  "closedBrowsers (concat (map (\<lambda>e. tryAppClose env (fst e) (snd e)) es)) = []"
  by (induction es) (simp_all add: closedBrowsers_append closedBrowsers_tryApp)

lemma Map_has_iff: "Map_has m k \<longleftrightarrow> k \<in> fst ` set m"
  by (simp add: Map_has_def Map_get_def map_of_eq_None_iff)

text \<open>
  Claim C6. The idle-timeout pass keeps exactly the browser and Electron sessions with
  \<open>now - lastActivity \<le> SESSION_TIMEOUT\<close>, in their order, and makes the close call for
  exactly the others. The proof does not look at the value of \<open>SESSION_TIMEOUT\<close>, so the
  statement holds for every timeout.
\<close>

theorem idle_timeout_selects_iff:
  assumes "distinct (map fst (sessions s))"
    and "distinct (map fst (electronSessions s))"
  shows "sessions (fst (cleanupInactiveSessions env now s))
           = filter (\<lambda>e. now - lastActivity (snd e) \<le> SESSION_TIMEOUT) (sessions s)
       \<and> electronSessions (fst (cleanupInactiveSessions env now s))
           = filter (\<lambda>e. now - e_lastActivity (snd e) \<le> SESSION_TIMEOUT) (electronSessions s)
       \<and> closedBrowsers (snd (cleanupInactiveSessions env now s))
           = map (\<lambda>e. browser (snd e))
               (filter (\<lambda>e. now - lastActivity (snd e) > SESSION_TIMEOUT) (sessions s))
       \<and> closedApps (snd (cleanupInactiveSessions env now s))
           = map (\<lambda>e. app (snd e))
               (filter (\<lambda>e. now - e_lastActivity (snd e) > SESSION_TIMEOUT) (electronSessions s))"
  unfolding cleanupInactiveSessions_eq [OF assms]
  by (simp add: closedBrowsers_append closedApps_append closedBrowsers_tries
      closedBrowsers_appTries closedApps_appTries closedApps_browserTries not_less)

theorem idle_timeout_selects_iff_witness:
  "distinct (map fst (sessions example_server))
   \<and> distinct (map fst (electronSessions example_server))
   \<and> map fst (sessions (fst (cleanupInactiveSessions all_rejected 2000000 example_server)))
        = [''b'', ''c'']
   \<and> map fst (electronSessions (fst (cleanupInactiveSessions all_rejected 2000000 example_server)))
        = [''f'']
   \<and> closedBrowsers (snd (cleanupInactiveSessions all_rejected 2000000 example_server)) = [1, 4]
   \<and> closedApps (snd (cleanupInactiveSessions all_rejected 2000000 example_server)) = [5]"
proof -
  have h1: "distinct (map fst (sessions example_server))" by (simp add: example_server_def mkSession_def mkElectron_def)
  have h2: "distinct (map fst (electronSessions example_server))" by (simp add: example_server_def mkSession_def mkElectron_def)
  show ?thesis
    using h1 h2 idle_timeout_selects_iff [OF h1 h2, of all_rejected 2000000]
    by (simp add: example_server_def mkSession_def mkElectron_def SESSION_TIMEOUT_def)
qed

subsection \<open>Memory pressure and the Electron sessions\<close>

text \<open>
  Claim C10. Whatever the memory probe returns and whatever the state is, the memory
  check leaves the map of Electron sessions as it was and closes no Electron application.
\<close>

theorem memory_pressure_leaves_electron:
  "electronSessions (fst (checkMemoryUsage env ps s)) = electronSessions s
   \<and> closedApps (snd (checkMemoryUsage env ps s)) = []"
proof (cases ps)
  case PsError
  then show ?thesis by (simp add: checkMemoryUsage_def)
next
  case (PsRss r)
  then show ?thesis
    by (cases r) (simp_all add: checkMemoryUsage_def cleanupOldestSessions_eq Let_def
        closedApps_browserTries)
qed

theorem memory_pressure_leaves_electron_witness:
  "map fst (electronSessions
      (fst (checkMemoryUsage all_rejected (PsRss (Some 3000000)) example_server))) = [''e'', ''f'']
   \<and> closedApps (snd (checkMemoryUsage all_rejected (PsRss (Some 3000000)) example_server)) = []"
  using memory_pressure_leaves_electron [of all_rejected "PsRss (Some 3000000)" example_server]
  by (simp add: example_server_def)

subsection \<open>A failed close does not leave an entry behind\<close>

lemma Map_has_delete: "\<not> Map_has (Map_delete k m) k"
  by (auto simp: Map_has_iff Map_delete_def)

lemma closeBrowser_removes: "\<not> Map_has (sessions (fst (closeBrowser env sid s))) sid"
proof (cases "Map_get (sessions s) sid")
  case None
  then show ?thesis by (simp add: closeBrowser_def Map_has_def)
next
  case (Some x)
  then show ?thesis
    by (simp add: closeBrowser_def Map_has_delete split: prod.split)
qed

lemma closeElectron_removes: "\<not> Map_has (electronSessions (fst (closeElectron env sid s))) sid"
proof (cases "Map_get (electronSessions s) sid")
  case None
  then show ?thesis by (simp add: closeElectron_def Map_has_def)
next
  case (Some x)
  then show ?thesis by (simp add: closeElectron_def Map_has_delete)
qed

text \<open>
  Claim C8. For every behaviour \<open>env\<close> of the driver, and so also when the close call
  rejects: after \<open>closeBrowser\<close> and \<open>closeElectron\<close> the map has no entry for the session
  id; a rejected close is logged and the tool still answers that the session was closed;
  after the idle-timeout pass no idle session has an entry; and after the memory-pressure
  pass none of the sessions it selected has one.
\<close>

theorem failed_close_still_removes_entry:
  "\<not> Map_has (sessions (fst (closeBrowser env sid s))) sid
   \<and> \<not> Map_has (electronSessions (fst (closeElectron env sid s))) sid
   \<and> (\<forall>x. Map_get (sessions s) sid = Some x \<and> env (browser x) = Rejected \<longrightarrow>
         ErrorLogged sid \<in> set (fst (snd (closeBrowser env sid s)))
         \<and> snd (snd (closeBrowser env sid s)) = Inr (''Browser session '' @ sid @ '' closed''))
   \<and> (\<forall>x. Map_get (electronSessions s) sid = Some x \<and> env (app x) = Rejected \<longrightarrow>
         ErrorLogged sid \<in> set (fst (snd (closeElectron env sid s)))
         \<and> snd (snd (closeElectron env sid s)) = Inr (''Electron session '' @ sid @ '' closed''))
   \<and> (\<forall>e \<in> set (sessions s). now - lastActivity (snd e) > SESSION_TIMEOUT \<longrightarrow>
         \<not> Map_has (sessions (fst (cleanupInactiveSessions env now s))) (fst e))
   \<and> (\<forall>e \<in> set (electronSessions s). now - e_lastActivity (snd e) > SESSION_TIMEOUT \<longrightarrow>
         \<not> Map_has (electronSessions (fst (cleanupInactiveSessions env now s))) (fst e))
   \<and> (\<forall>e \<in> set (take (max 1 (length (sessions s) div 4))
                      (sort_key (\<lambda>a. createdAt (snd a)) (sessions s))).
         \<not> Map_has (sessions (fst (cleanupOldestSessions env s))) (fst e))"
proof (intro conjI allI impI ballI)
  show "\<not> Map_has (sessions (fst (closeBrowser env sid s))) sid" by (rule closeBrowser_removes)
  show "\<not> Map_has (electronSessions (fst (closeElectron env sid s))) sid"
    by (rule closeElectron_removes)
next
  fix x assume "Map_get (sessions s) sid = Some x \<and> env (browser x) = Rejected"
  then show "ErrorLogged sid \<in> set (fst (snd (closeBrowser env sid s)))"
    and "snd (snd (closeBrowser env sid s)) = Inr (''Browser session '' @ sid @ '' closed'')"
    by (simp_all add: closeBrowser_def tryBrowserClose_def split: prod.split)
next
  fix x assume "Map_get (electronSessions s) sid = Some x \<and> env (app x) = Rejected"
  then show "ErrorLogged sid \<in> set (fst (snd (closeElectron env sid s)))"
    and "snd (snd (closeElectron env sid s)) = Inr (''Electron session '' @ sid @ '' closed'')"
    by (simp_all add: closeElectron_def tryAppClose_def)
next
  fix e assume "e \<in> set (sessions s)" "now - lastActivity (snd e) > SESSION_TIMEOUT"
  then show "\<not> Map_has (sessions (fst (cleanupInactiveSessions env now s))) (fst e)"
    unfolding cleanupInactiveSessions_raw Map_has_iff by auto
next
  fix e assume "e \<in> set (electronSessions s)" "now - e_lastActivity (snd e) > SESSION_TIMEOUT"
  then show "\<not> Map_has (electronSessions (fst (cleanupInactiveSessions env now s))) (fst e)"
    unfolding cleanupInactiveSessions_raw Map_has_iff by auto
next
  fix e assume "e \<in> set (take (max 1 (length (sessions s) div 4))
                      (sort_key (\<lambda>a. createdAt (snd a)) (sessions s)))"
  then show "\<not> Map_has (sessions (fst (cleanupOldestSessions env s))) (fst e)"
    unfolding cleanupOldestSessions_eq Map_has_iff by auto
qed

theorem failed_close_still_removes_entry_witness:
  "Map_get (sessions example_server) ''a'' = Some (mkSession 1 30 150000 [(''main'', 11)])
   \<and> all_rejected (browser (mkSession 1 30 150000 [(''main'', 11)])) = Rejected
   \<and> Map_get (electronSessions example_server) ''e'' = Some (mkElectron 5 1 0)
   \<and> all_rejected (app (mkElectron 5 1 0)) = Rejected
   \<and> (''d'', mkSession 4 20 0 [(''main'', 14)]) \<in> set (sessions example_server)
   \<and> 2000000 - lastActivity (mkSession 4 20 0 [(''main'', 14)]) > SESSION_TIMEOUT
   \<and> \<not> Map_has (sessions (fst (closeBrowser all_rejected ''a'' example_server))) ''a''
   \<and> ErrorLogged ''a'' \<in> set (fst (snd (closeBrowser all_rejected ''a'' example_server)))
   \<and> \<not> Map_has (electronSessions (fst (closeElectron all_rejected ''e'' example_server))) ''e''
   \<and> ErrorLogged ''e'' \<in> set (fst (snd (closeElectron all_rejected ''e'' example_server)))
   \<and> \<not> Map_has (sessions (fst (cleanupInactiveSessions all_rejected 2000000 example_server))) ''d''"
proof -
  have a: "Map_get (sessions example_server) ''a'' = Some (mkSession 1 30 150000 [(''main'', 11)])"
    by (simp add: example_server_def mkSession_def mkElectron_def Map_get_def)
  have b: "all_rejected (browser (mkSession 1 30 150000 [(''main'', 11)])) = Rejected"
    by (simp add: all_rejected_def)
  have c: "Map_get (electronSessions example_server) ''e'' = Some (mkElectron 5 1 0)"
    by (simp add: example_server_def mkSession_def mkElectron_def Map_get_def)
  have d: "all_rejected (app (mkElectron 5 1 0)) = Rejected"
    by (simp add: all_rejected_def)
  have e: "(''d'', mkSession 4 20 0 [(''main'', 14)]) \<in> set (sessions example_server)"
    by (simp add: example_server_def mkSession_def mkElectron_def)
  have f: "2000000 - lastActivity (mkSession 4 20 0 [(''main'', 14)]) > SESSION_TIMEOUT"
    by (simp add: mkSession_def SESSION_TIMEOUT_def)
  note t1 = failed_close_still_removes_entry [of all_rejected "''a''" example_server 2000000]
  note t2 = failed_close_still_removes_entry [of all_rejected "''e''" example_server 2000000]
  from t1 a b have g: "\<not> Map_has (sessions (fst (closeBrowser all_rejected ''a'' example_server))) ''a''"
    and h: "ErrorLogged ''a'' \<in> set (fst (snd (closeBrowser all_rejected ''a'' example_server)))"
    by blast+
  from t2 c d have i: "\<not> Map_has (electronSessions (fst (closeElectron all_rejected ''e'' example_server))) ''e''"
    and j: "ErrorLogged ''e'' \<in> set (fst (snd (closeElectron all_rejected ''e'' example_server)))"
    by blast+
  from t1 e f have k: "\<not> Map_has (sessions (fst (cleanupInactiveSessions all_rejected 2000000 example_server))) ''d''"
    by fastforce
  from a b c d e f g h i j k show ?thesis by blast
qed

subsection \<open>Zombie processes\<close>

lemma pkill_oldest_not_pgrep: "PKILL_OLDEST_CMD \<noteq> PGREP_CMD"
  by (simp add: PKILL_OLDEST_CMD_def PGREP_CMD_def)

text \<open>
  Claim C9, as amended. The zombie check never changes the server state. It runs the
  \<^verbatim>\<open>pkill\<close> command exactly when \<^verbatim>\<open>pgrep\<close> succeeded and printed more process ids than
  twice the number of browser sessions; the Electron sessions are not counted. When
  \<^verbatim>\<open>pgrep\<close> fails nothing else happens.
\<close>

theorem zombie_check_counts_browser_sessions:
  "fst (cleanupZombieProcesses pgrep s) = s
   \<and> (Exec PKILL_OLDEST_CMD \<in> set (snd (cleanupZombieProcesses pgrep s))
        \<longleftrightarrow> (\<exists>stdout. pgrep = Stdout stdout
                       \<and> length (parsePids stdout) > 2 * length (sessions s)))
   \<and> cleanupZombieProcesses ExecError s = (s, [Exec PGREP_CMD])"
proof (cases pgrep)
  case ExecError
  then show ?thesis by (simp add: cleanupZombieProcesses_def pkill_oldest_not_pgrep)
next
  case (Stdout out)
  then show ?thesis
    by (simp add: cleanupZombieProcesses_def pkill_oldest_not_pgrep Let_def mult.commute)
qed

lemma parsePids_three: "parsePids three_pids = [''101'', ''102'', ''103'']"
  by (simp add: parsePids_def three_pids_def trim_def isWhiteSpace_def)

theorem zombie_check_counts_browser_sessions_witness:
  "Exec PKILL_OLDEST_CMD \<in> set (snd (cleanupZombieProcesses (Stdout three_pids) small_server))
   \<and> length (parsePids three_pids) > 2 * length (sessions small_server)
   \<and> fst (cleanupZombieProcesses (Stdout three_pids) small_server) = small_server"
  using zombie_check_counts_browser_sessions [of "Stdout three_pids" small_server]
  by (simp add: parsePids_three small_server_def)

text \<open>
  The claim as stated counts the Electron sessions too. With one browser session, one
  Electron session and three processes the check kills, although three is not more than
  twice two.
\<close>

theorem zombie_check_ignores_electron_counterexample:
  "Exec PKILL_OLDEST_CMD \<in> set (snd (cleanupZombieProcesses (Stdout three_pids) small_server))
   \<and> \<not> length (parsePids three_pids)
          > 2 * (length (sessions small_server) + length (electronSessions small_server))"
  by (simp add: cleanupZombieProcesses_def parsePids_three small_server_def)

subsection \<open>Shutdown\<close>

lemma cleanupCalls_noop: "isShuttingDown s \<Longrightarrow> cleanupCalls envs s = (s, [])"
  by (induction envs) (simp_all add: cleanup_def)

lemma cleanup_sets_flag: "isShuttingDown (fst (cleanup env s))"
  by (simp add: cleanup_def Let_def)

lemma closedBrowsers_map_BrowserClose:
  "closedBrowsers (map (\<lambda>x. BrowserClose (f x)) xs) = map f xs"
  by (induction xs) simp_all

lemma closedBrowsers_map_AppClose: "closedBrowsers (map (\<lambda>x. AppClose (f x)) xs) = []"
  by (induction xs) simp_all

lemma closedApps_map_AppClose: "closedApps (map (\<lambda>x. AppClose (f x)) xs) = map f xs"
  by (induction xs) simp_all

lemma closedApps_map_BrowserClose: "closedApps (map (\<lambda>x. BrowserClose (f x)) xs) = []"
  by (induction xs) simp_all

lemma closedBrowsers_closeErrors: "closedBrowsers (closeErrors env what hs) = []"
  by (induction hs) (simp_all add: closeErrors_def)

lemma closedApps_closeErrors: "closedApps (closeErrors env what hs) = []"
  by (induction hs) (simp_all add: closeErrors_def)

lemmas closed_simps = closedBrowsers_append closedApps_append closedBrowsers_map_BrowserClose
  closedBrowsers_map_AppClose closedApps_map_AppClose closedApps_map_BrowserClose
  closedBrowsers_closeErrors closedApps_closeErrors

text \<open>
  Claim C4. The first run of the shutdown handler sets \<open>isShuttingDown\<close>; every later
  run, whatever the driver does, returns at once, changes nothing and makes no call. So
  any number of triggers make the close calls of one run: one for every browser session
  and one for every Electron session.
\<close>

theorem shutdown_runs_once:
  "isShuttingDown (fst (cleanup env s))
   \<and> cleanup env' (fst (cleanup env s)) = (fst (cleanup env s), [], NoOp)
   \<and> cleanupCalls (env # envs) s = (fst (cleanup env s), fst (snd (cleanup env s)))
   \<and> (\<not> isShuttingDown s \<longrightarrow>
         closedBrowsers (fst (snd (cleanup env s))) = map (\<lambda>e. browser (snd e)) (sessions s)
       \<and> closedApps (fst (snd (cleanup env s))) = map (\<lambda>e. app (snd e)) (electronSessions s)
       \<and> closedBrowsers (snd (cleanupCalls (env # envs) s)) = map (\<lambda>e. browser (snd e)) (sessions s)
       \<and> closedApps (snd (cleanupCalls (env # envs) s)) = map (\<lambda>e. app (snd e)) (electronSessions s))"
proof -
  have flag: "isShuttingDown (fst (cleanup env s))" by (rule cleanup_sets_flag)
  then have second: "cleanup env' (fst (cleanup env s)) = (fst (cleanup env s), [], NoOp)"
    by (simp add: cleanup_def)
  have calls: "cleanupCalls (env # envs) s = (fst (cleanup env s), fst (snd (cleanup env s)))"
  proof -
    obtain s1 tr1 r where c: "cleanup env s = (s1, tr1, r)" by (cases "cleanup env s")
    with flag have "isShuttingDown s1" by simp
    then have "cleanupCalls envs s1 = (s1, [])" by (rule cleanupCalls_noop)
    with c show ?thesis by simp
  qed
  have first: "\<not> isShuttingDown s \<Longrightarrow>
         closedBrowsers (fst (snd (cleanup env s))) = map (\<lambda>e. browser (snd e)) (sessions s)
       \<and> closedApps (fst (snd (cleanup env s))) = map (\<lambda>e. app (snd e)) (electronSessions s)"
    by (simp add: cleanup_def Let_def closed_simps comp_def)
  from flag second calls first show ?thesis by simp
qed

theorem shutdown_runs_once_witness:
  "\<not> isShuttingDown example_server
   \<and> closedBrowsers (snd (cleanupCalls [one_hangs, all_settle, all_settle] example_server)) = [1, 2, 3, 4]
   \<and> closedApps (snd (cleanupCalls [one_hangs, all_settle, all_settle] example_server)) = [5, 6]"
proof -
  have h: "\<not> isShuttingDown example_server" by (simp add: example_server_def mkSession_def mkElectron_def)
  show ?thesis
    using h shutdown_runs_once [of one_hangs example_server all_settle "[all_settle, all_settle]"]
    by (simp add: example_server_def mkSession_def mkElectron_def)
qed

lemma closeErrors_map:
  "closeErrors env what (map f xs)
     = map (\<lambda>e. ErrorLogged what) (filter (\<lambda>e. env (f e) = Some Rejected) xs)"
  by (induction xs) (simp_all add: closeErrors_def)

text \<open>
  Claim C3, as amended. A run of the shutdown handler sets \<open>isShuttingDown\<close>, clears the
  timer if one is set, and makes the close call of every browser session and then of every Electron
  session before it waits for any of them. A close that rejects is caught and logged and
  does not hold the handler up. The handler puts no bound on the wait: exactly when every
  close call settles it goes on to run the \<^verbatim>\<open>pkill\<close> command and then \<^verbatim>\<open>process.exit\<close>;
  when one close call never settles it never completes, runs no \<^verbatim>\<open>pkill\<close> and never
  exits. The theorem gives the whole sequence of events and the outcome.
\<close>

theorem shutdown_fires_all_closes_then_waits:
  assumes "\<not> isShuttingDown s"
  shows "fst (cleanup env s) = s\<lparr>isShuttingDown := True\<rparr>
       \<and> fst (snd (cleanup env s)) =
            (if cleanupTimer s then [ClearInterval] else [])
            @ map (\<lambda>e. BrowserClose (browser (snd e))) (sessions s)
            @ map (\<lambda>e. AppClose (app (snd e))) (electronSessions s)
            @ map (\<lambda>e. ErrorLogged ''browser'')
                (filter (\<lambda>e. env (browser (snd e)) = Some Rejected) (sessions s))
            @ map (\<lambda>e. ErrorLogged ''electron app'')
                (filter (\<lambda>e. env (app (snd e)) = Some Rejected) (electronSessions s))
            @ (if (\<forall>e \<in> set (sessions s). env (browser (snd e)) \<noteq> None)
                  \<and> (\<forall>e \<in> set (electronSessions s). env (app (snd e)) \<noteq> None)
               then [Exec PKILL_CMD, ProcessExit] else [])
       \<and> snd (snd (cleanup env s)) =
            (if (\<forall>e \<in> set (sessions s). env (browser (snd e)) \<noteq> None)
                \<and> (\<forall>e \<in> set (electronSessions s). env (app (snd e)) \<noteq> None)
             then Exited else NeverCompletes)"
proof -
  let ?all = "(\<forall>e \<in> set (sessions s). env (browser (snd e)) \<noteq> None)
                \<and> (\<forall>e \<in> set (electronSessions s). env (app (snd e)) \<noteq> None)"
  have cond: "(\<forall>h \<in> set (map (\<lambda>session. browser session) (map snd (sessions s))
                       @ map (\<lambda>session. app session) (map snd (electronSessions s))). env h \<noteq> None)
              = ?all"
    by auto
  have eb: "closeErrors env ''browser'' (map (\<lambda>session. browser session) (map snd (sessions s)))
      = map (\<lambda>e. ErrorLogged ''browser'')
                (filter (\<lambda>e. env (browser (snd e)) = Some Rejected) (sessions s))"
    unfolding map_map by (simp add: closeErrors_map comp_def)
  have ea: "closeErrors env ''electron app'' (map (\<lambda>session. app session) (map snd (electronSessions s)))
      = map (\<lambda>e. ErrorLogged ''electron app'')
                (filter (\<lambda>e. env (app (snd e)) = Some Rejected) (electronSessions s))"
    unfolding map_map by (simp add: closeErrors_map comp_def)
  have started: "map BrowserClose (map (\<lambda>session. browser session) (map snd (sessions s)))
        @ map AppClose (map (\<lambda>session. app session) (map snd (electronSessions s)))
      = map (\<lambda>e. BrowserClose (browser (snd e))) (sessions s)
        @ map (\<lambda>e. AppClose (app (snd e))) (electronSessions s)"
    by (simp add: comp_def)
  have nsd: "isShuttingDown s = False" using assms by simp
  show ?thesis
  proof (cases ?all)
    case True
    then have c0: "(\<forall>h \<in> set (map (\<lambda>session. browser session) (map snd (sessions s))
                       @ map (\<lambda>session. app session) (map snd (electronSessions s))). env h \<noteq> None)
              = True"
      using cond by simp
    have all: "?all = True" using True by simp
    show ?thesis
      unfolding cleanup_def Let_def nsd c0 eb ea started all if_True if_False fst_conv snd_conv
      by simp
  next
    case False
    then have c0: "(\<forall>h \<in> set (map (\<lambda>session. browser session) (map snd (sessions s))
                       @ map (\<lambda>session. app session) (map snd (electronSessions s))). env h \<noteq> None)
              = False"
      using cond by simp
    have all: "?all = False" using False by simp
    show ?thesis
      unfolding cleanup_def Let_def nsd c0 eb ea started all if_True if_False fst_conv snd_conv
      by simp
  qed
qed

theorem shutdown_fires_all_closes_then_waits_witness:
  "\<not> isShuttingDown example_server
   \<and> all_settle 2 = Some Rejected
   \<and> fst (snd (cleanup all_settle example_server)) =
       [ClearInterval, BrowserClose 1, BrowserClose 2, BrowserClose 3, BrowserClose 4,
        AppClose 5, AppClose 6, ErrorLogged ''browser'', Exec PKILL_CMD, ProcessExit]
   \<and> snd (snd (cleanup all_settle example_server)) = Exited"
proof -
  have h: "\<not> isShuttingDown example_server" by (simp add: example_server_def)
  show ?thesis
    using h shutdown_fires_all_closes_then_waits [OF h, of all_settle]
    by (simp add: example_server_def mkSession_def mkElectron_def all_settle_def)
qed

text \<open>
  The claim as stated bounds the wait. With one close call that never settles the handler
  makes its close calls and never reaches \<^verbatim>\<open>process.exit\<close>.
\<close>

theorem shutdown_waits_forever_counterexample:
  "one_hangs 2 = None
   \<and> Map_get (sessions example_server) ''b'' = Some (mkSession 2 10 200000 [(''main'', 12)])
   \<and> snd (snd (cleanup one_hangs example_server)) = NeverCompletes
   \<and> fst (snd (cleanup one_hangs example_server)) =
       [ClearInterval, BrowserClose 1, BrowserClose 2, BrowserClose 3, BrowserClose 4,
        AppClose 5, AppClose 6]
   \<and> ProcessExit \<notin> set (fst (snd (cleanup one_hangs example_server)))"
  by (simp add: cleanup_def example_server_def mkSession_def mkElectron_def one_hangs_def
      Map_get_def closeErrors_def Let_def)

subsection \<open>Log streams\<close>

lemma endedStreams_append: "endedStreams (a @ b) = endedStreams a @ endedStreams b"
  by (induction a rule: endedStreams.induct) simp_all

lemma endedStreams_tryBrowser: "endedStreams (tryBrowserClose env sid x) = []"
  by (simp add: tryBrowserClose_def split: settle.split)

lemma endedStreams_tryApp: "endedStreams (tryAppClose env sid x) = []"
  by (simp add: tryAppClose_def split: settle.split)

lemma endedStreams_browserTries:
  "endedStreams (concat (map (\<lambda>e. tryBrowserClose env (fst e) (snd e)) es)) = []"
  by (induction es) (simp_all add: endedStreams_append endedStreams_tryBrowser)

lemma endedStreams_appTries:
  "endedStreams (concat (map (\<lambda>e. tryAppClose env (fst e) (snd e)) es)) = []"
  by (induction es) (simp_all add: endedStreams_append endedStreams_tryApp)

lemma endedStreams_map_BrowserClose: "endedStreams (map (\<lambda>x. BrowserClose (f x)) xs) = []"
  by (induction xs) simp_all

lemma endedStreams_map_AppClose: "endedStreams (map (\<lambda>x. AppClose (f x)) xs) = []"
  by (induction xs) simp_all

lemma endedStreams_closeErrors: "endedStreams (closeErrors env what hs) = []"
  by (induction hs) (simp_all add: closeErrors_def)

lemma endedStreams_footers:
  "endedStreams (concat (map (\<lambda>(pageId, stream). [StreamWrite stream, StreamEnd stream]) ls))
     = map snd ls"
  by (induction ls) auto

lemma eviction_paths_end_no_stream:
  "endedStreams (snd (cleanupInactiveSessions env now s)) = []
   \<and> endedStreams (snd (checkMemoryUsage env ps s)) = []
   \<and> endedStreams (fst (snd (cleanup env3 s))) = []"
proof (intro conjI)
  show "endedStreams (snd (cleanupInactiveSessions env now s)) = []"
    by (simp add: cleanupInactiveSessions_raw endedStreams_append endedStreams_browserTries
        endedStreams_appTries)
  show "endedStreams (snd (checkMemoryUsage env ps s)) = []"
  proof (cases ps)
    case PsError
    then show ?thesis by (simp add: checkMemoryUsage_def)
  next
    case (PsRss r)
    then show ?thesis
      by (cases r) (simp_all add: checkMemoryUsage_def cleanupOldestSessions_eq Let_def
          endedStreams_browserTries)
  qed
  show "endedStreams (fst (snd (cleanup env3 s))) = []"
    by (simp add: cleanup_def Let_def comp_def endedStreams_append endedStreams_map_BrowserClose
        endedStreams_map_AppClose endedStreams_closeErrors)
qed

lemma closeBrowser_ends_each_stream_once:
  assumes "Map_get (sessions s) sid = Some x"
  shows "endedStreams (fst (snd (closeBrowser env sid s))) = map snd (logStreams x)"
  using assms
  by (simp add: closeBrowser_def closeLogStreams_def endedStreams_append endedStreams_footers
      endedStreams_tryBrowser)

text \<open>
  Claim C2 says that every way of destroying a session ends its log streams exactly
  once. Only \<open>closeBrowser\<close> does (lemma \<open>closeBrowser_ends_each_stream_once\<close>); the
  idle-timeout pass, the memory-pressure pass and the shutdown handler end no stream at
  all (lemma \<open>eviction_paths_end_no_stream\<close>). In the example the idle-timeout pass
  removes the session \<open>a\<close> and the memory-pressure pass removes the session \<open>b\<close>, each
  with an open log stream, and neither ends a stream; the shutdown handler exits without
  ending one; \<open>closeBrowser\<close> on \<open>a\<close> ends its stream \<open>11\<close>.
\<close>

theorem eviction_leaves_log_streams_open:
  "Map_get (sessions example_server) ''a'' = Some (mkSession 1 30 150000 [(''main'', 11)])
   \<and> \<not> Map_has (sessions (fst (cleanupInactiveSessions all_rejected 2000000 example_server))) ''a''
   \<and> endedStreams (snd (cleanupInactiveSessions all_rejected 2000000 example_server)) = []
   \<and> Map_get (sessions example_server) ''b'' = Some (mkSession 2 10 200000 [(''main'', 12)])
   \<and> \<not> Map_has (sessions (fst (checkMemoryUsage all_rejected (PsRss (Some 3000000)) example_server))) ''b''
   \<and> endedStreams (snd (checkMemoryUsage all_rejected (PsRss (Some 3000000)) example_server)) = []
   \<and> snd (snd (cleanup all_settle example_server)) = Exited
   \<and> endedStreams (fst (snd (cleanup all_settle example_server))) = []
   \<and> endedStreams (fst (snd (closeBrowser all_rejected ''a'' example_server))) = [11]"
proof (intro conjI)
  show a: "Map_get (sessions example_server) ''a'' = Some (mkSession 1 30 150000 [(''main'', 11)])"
    by (simp add: example_server_def mkSession_def mkElectron_def Map_get_def)
  show "Map_get (sessions example_server) ''b'' = Some (mkSession 2 10 200000 [(''main'', 12)])"
    by (simp add: example_server_def mkSession_def mkElectron_def Map_get_def)
  show "\<not> Map_has (sessions (fst (cleanupInactiveSessions all_rejected 2000000 example_server))) ''a''"
    by code_simp
  show "endedStreams (snd (cleanupInactiveSessions all_rejected 2000000 example_server)) = []"
    by code_simp
  show "\<not> Map_has (sessions (fst (checkMemoryUsage all_rejected (PsRss (Some 3000000)) example_server))) ''b''"
    by (simp add: checkMemoryUsage_def cleanupOldestSessions_eq MAX_MEMORY_MB_def Map_has_iff
        example_server_def mkSession_def mkElectron_def)
  show "endedStreams (snd (checkMemoryUsage all_rejected (PsRss (Some 3000000)) example_server)) = []"
    by (simp add: checkMemoryUsage_def cleanupOldestSessions_eq MAX_MEMORY_MB_def
        example_server_def mkSession_def mkElectron_def tryBrowserClose_def all_rejected_def)
  show "snd (snd (cleanup all_settle example_server)) = Exited"
    by (simp add: cleanup_def example_server_def mkSession_def mkElectron_def all_settle_def Let_def)
  show "endedStreams (fst (snd (cleanup all_settle example_server))) = []"
    by (simp add: cleanup_def example_server_def mkSession_def mkElectron_def all_settle_def Let_def closeErrors_def)
  show "endedStreams (fst (snd (closeBrowser all_rejected ''a'' example_server))) = [11]"
    using closeBrowser_ends_each_stream_once [OF a, of all_rejected] by (simp add: mkSession_def)
qed

theorem eviction_leaves_log_streams_open_witness:
  "endedStreams (snd (cleanupInactiveSessions all_rejected 2000000 example_server)) = []
   \<and> endedStreams (fst (snd (closeBrowser all_rejected ''a'' example_server))) = [11]"
  using eviction_leaves_log_streams_open by blast

subsection \<open>Repeated launches under one id\<close>

lemma Map_get_Map_set:
  "Map_get (Map_set k v m) k' = (if k' = k then Some v else Map_get m k')"
  by (induction m) (auto simp: Map_get_def)

lemma Map_set_keys: "Map_get m k = Some x \<Longrightarrow> map fst (Map_set k v m) = map fst m"
  by (induction m) (auto simp: Map_get_def split: if_splits)

lemma updateSessionActivity_sessions:
  "sessions (updateSessionActivity now1 now2 sid s) =
     (case Map_get (sessions s) sid of
        None \<Rightarrow> sessions s
      | Some x \<Rightarrow> Map_set sid (x\<lparr>lastActivity := now1\<rparr>) (sessions s))"
  by (simp add: updateSessionActivity_def Let_def split: option.split)

lemma launchBrowser_existing:
  assumes "Map_get (sessions s) (a_sessionId args) = Some x"
  shows "launchBrowser drv args s =
           (s, [], Inr (''Session '' @ a_sessionId args @ '' already exists''))"
  using assms by (simp add: launchBrowser_def Map_has_def Let_def)

lemma callTool_launch_existing:
  assumes "Map_get (sessions s) sid = Some x" and "a_sessionId args = sid"
  shows "fst (snd (callTool ce (browser_launch args) s)) = []
       \<and> snd (snd (callTool ce (browser_launch args) s)) = ''Session '' @ sid @ '' already exists''
       \<and> map fst (sessions (fst (callTool ce (browser_launch args) s))) = map fst (sessions s)
       \<and> Map_get (sessions (fst (callTool ce (browser_launch args) s))) sid
           = Some (x\<lparr>lastActivity := (if sid = [] then lastActivity x else clock1 ce)\<rparr>)
       \<and> (\<forall>k. k \<noteq> sid \<longrightarrow>
             Map_get (sessions (fst (callTool ce (browser_launch args) s))) k = Map_get (sessions s) k)"
proof (cases "sid = []")
  case True
  with assms show ?thesis
    by (simp add: callTool_def callSessionId_def launchBrowser_existing)
next
  case False
  let ?s0 = "updateSessionActivity (clock1 ce) (clock2 ce) sid s"
  have ss: "sessions ?s0 = Map_set sid (x\<lparr>lastActivity := clock1 ce\<rparr>) (sessions s)"
    using assms(1) by (simp add: updateSessionActivity_sessions)
  then have g: "Map_get (sessions ?s0) (a_sessionId args) = Some (x\<lparr>lastActivity := clock1 ce\<rparr>)"
    using assms(2) by (simp add: Map_get_Map_set)
  have "callTool ce (browser_launch args) s = (?s0, [], ''Session '' @ sid @ '' already exists'')"
    using False assms(2) launchBrowser_existing [OF g]
    by (simp add: callTool_def callSessionId_def)
  then show ?thesis
    using False assms(1) by (simp add: ss Map_get_Map_set Map_set_keys)
qed

lemma Map_set_fresh: "\<not> Map_has m k \<Longrightarrow> Map_set k v m = m @ [(k, v)]"
  by (induction m) (auto simp: Map_has_def Map_get_def split: if_splits)

lemma Map_set_last: "\<not> Map_has m k \<Longrightarrow> Map_set k v' (m @ [(k, v)]) = m @ [(k, v')]"
  by (induction m) (auto simp: Map_has_def Map_get_def split: if_splits)

lemma Map_get_fresh_append:
  "\<not> Map_has m k \<Longrightarrow> Map_get (m @ [(k, v)]) k' = (if k' = k then Some v else Map_get m k')"
  by (induction m) (auto simp: Map_has_def Map_get_def split: if_splits)

lemma updateSessionActivity_rest:
  "electronSessions (updateSessionActivity now1 now2 sid s) =
     (case Map_get (electronSessions s) sid of
        None \<Rightarrow> electronSessions s
      | Some e \<Rightarrow> Map_set sid (e\<lparr>e_lastActivity := now2\<rparr>) (electronSessions s))
   \<and> cleanupTimer (updateSessionActivity now1 now2 sid s) = cleanupTimer s
   \<and> isShuttingDown (updateSessionActivity now1 now2 sid s) = isShuttingDown s"
  by (simp add: updateSessionActivity_def Let_def split: option.split)

lemma launchBrowser_rest:
  "electronSessions (fst (launchBrowser drv args s)) = electronSessions s
   \<and> cleanupTimer (fst (launchBrowser drv args s)) = cleanupTimer s
   \<and> isShuttingDown (fst (launchBrowser drv args s)) = isShuttingDown s"
  by (simp add: launchBrowser_def setupPageLogging_def Let_def Map_get_Map_set
      split: sum.split option.split)

lemma callTool_launch_rest:
  assumes "a_sessionId args = sid"
  shows "map fst (electronSessions (fst (callTool ce (browser_launch args) s)))
           = map fst (electronSessions s)
       \<and> (\<forall>k. k \<noteq> sid \<longrightarrow>
             Map_get (electronSessions (fst (callTool ce (browser_launch args) s))) k
               = Map_get (electronSessions s) k)
       \<and> Map_get (electronSessions (fst (callTool ce (browser_launch args) s))) sid
           = (if sid = [] then Map_get (electronSessions s) sid
              else map_option (\<lambda>e. e\<lparr>e_lastActivity := clock2 ce\<rparr>)
                     (Map_get (electronSessions s) sid))
       \<and> cleanupTimer (fst (callTool ce (browser_launch args) s)) = cleanupTimer s
       \<and> isShuttingDown (fst (callTool ce (browser_launch args) s)) = isShuttingDown s"
proof -
  let ?s0 = "if sid \<noteq> [] then updateSessionActivity (clock1 ce) (clock2 ce) sid s else s"
  have f: "fst (callTool ce (browser_launch args) s) = fst (launchBrowser (launchEnv ce) args ?s0)"
    using assms by (simp add: callTool_def callSessionId_def Let_def split: prod.split sum.split)
  show ?thesis
    unfolding f
    by (cases "Map_get (electronSessions s) sid")
       (simp_all add: launchBrowser_rest updateSessionActivity_rest Map_get_Map_set Map_set_keys)
qed

lemma launch_calls_rest:
  assumes "\<forall>c \<in> set calls. \<exists>args. snd c = browser_launch args \<and> a_sessionId args = sid"
  shows "map fst (electronSessions (fst (callTools calls s))) = map fst (electronSessions s)
       \<and> (\<forall>k. k \<noteq> sid \<longrightarrow>
             Map_get (electronSessions (fst (callTools calls s))) k = Map_get (electronSessions s) k)
       \<and> Map_get (electronSessions (fst (callTools calls s))) sid
           = (if sid = [] \<or> calls = [] then Map_get (electronSessions s) sid
              else map_option (\<lambda>e. e\<lparr>e_lastActivity := clock2 (fst (last calls))\<rparr>)
                     (Map_get (electronSessions s) sid))
       \<and> cleanupTimer (fst (callTools calls s)) = cleanupTimer s
       \<and> isShuttingDown (fst (callTools calls s)) = isShuttingDown s"
  using assms
proof (induction calls arbitrary: s)
  case Nil
  then show ?case by simp
next
  case (Cons c calls)
  obtain ce call where c: "c = (ce, call)" by (cases c)
  from Cons.prems c obtain args where call: "call = browser_launch args"
    and sid: "a_sessionId args = sid" by auto
  from Cons.prems have rest: "\<forall>c \<in> set calls. \<exists>args. snd c = browser_launch args \<and> a_sessionId args = sid"
    by simp
  obtain s1 tr1 answer where r1: "callTool ce (browser_launch args) s = (s1, tr1, answer)"
    by (cases "callTool ce (browser_launch args) s")
  obtain s2 tr2 texts where r2: "callTools calls s1 = (s2, tr2, texts)" by (cases "callTools calls s1")
  have all: "callTools (c # calls) s = (s2, tr1 @ tr2, answer # texts)"
    by (simp add: c call r1 r2)
  note one = callTool_launch_rest [OF sid, of ce s, unfolded r1 fst_conv]
  note ih = Cons.IH [OF rest, of s1, unfolded r2 fst_conv]
  show ?case
    unfolding all fst_conv using one ih
    by (cases "Map_get (electronSessions s) sid") (auto simp: c)
qed

lemma relaunch_existing:
  assumes "Map_get (sessions s) sid = Some x"
    and "\<forall>c \<in> set calls. \<exists>args. snd c = browser_launch args \<and> a_sessionId args = sid"
  shows "fst (snd (callTools calls s)) = []
       \<and> launches (fst (snd (callTools calls s))) = 0
       \<and> snd (snd (callTools calls s))
           = replicate (length calls) (''Session '' @ sid @ '' already exists'')
       \<and> map fst (sessions (fst (callTools calls s))) = map fst (sessions s)
       \<and> Map_get (sessions (fst (callTools calls s))) sid
           = Some (x\<lparr>lastActivity :=
                       (if sid = [] \<or> calls = [] then lastActivity x
                        else clock1 (fst (last calls)))\<rparr>)
       \<and> (\<forall>k. k \<noteq> sid \<longrightarrow>
             Map_get (sessions (fst (callTools calls s))) k = Map_get (sessions s) k)"
  using assms
proof (induction calls arbitrary: s x)
  case Nil
  then show ?case by simp
next
  case (Cons c calls)
  obtain ce call where c: "c = (ce, call)" by (cases c)
  from Cons.prems(2) c obtain args where call: "call = browser_launch args"
    and sid: "a_sessionId args = sid" by auto
  let ?r1 = "callTool ce (browser_launch args) s"
  let ?x1 = "x\<lparr>lastActivity := (if sid = [] then lastActivity x else clock1 ce)\<rparr>"
  note one = callTool_launch_existing [OF Cons.prems(1) sid, of ce]
  from one have g1: "Map_get (sessions (fst ?r1)) sid = Some ?x1" by blast
  from Cons.prems(2) have rest: "\<forall>c \<in> set calls. \<exists>args. snd c = browser_launch args \<and> a_sessionId args = sid"
    by simp
  note ih = Cons.IH [OF g1 rest]
  obtain s1 tr1 answer where r1: "?r1 = (s1, tr1, answer)" by (cases ?r1)
  obtain s2 tr2 texts where r2: "callTools calls s1 = (s2, tr2, texts)" by (cases "callTools calls s1")
  have all: "callTools (c # calls) s = (s2, tr1 @ tr2, answer # texts)"
    by (simp add: c call r1 r2)
  from one r1 have o: "tr1 = []" "answer = ''Session '' @ sid @ '' already exists''"
    "map fst (sessions s1) = map fst (sessions s)"
    "\<forall>k. k \<noteq> sid \<longrightarrow> Map_get (sessions s1) k = Map_get (sessions s) k" by simp_all
  from ih r1 r2 have i: "tr2 = []"
    "texts = replicate (length calls) (''Session '' @ sid @ '' already exists'')"
    "map fst (sessions s2) = map fst (sessions s1)"
    "Map_get (sessions s2) sid = Some (?x1\<lparr>lastActivity :=
                       (if sid = [] \<or> calls = [] then lastActivity ?x1
                        else clock1 (fst (last calls)))\<rparr>)"
    "\<forall>k. k \<noteq> sid \<longrightarrow> Map_get (sessions s2) k = Map_get (sessions s1) k" by simp_all
  show ?case
    unfolding all using o i by (auto simp: c)
qed

lemma callTool_first_launch:
  assumes fresh: "\<not> Map_has (sessions s) sid"
    and sid: "a_sessionId args = sid"
    and drv: "launchResult (launchEnv ce) = Inr b" "newContextResult (launchEnv ce) = Inr c"
      "newPageResult (launchEnv ce) = Inr p"
  shows "fst (snd (callTool ce (browser_launch args) s)) =
           [ChromiumLaunch (case headless args of None \<Rightarrow> True | Some h \<Rightarrow> h),
            NewContext b (case viewport args of None \<Rightarrow> (1920, 1080) | Some v \<Rightarrow> v),
            NewPage c,
            CreateWriteStream (newLogStream (launchEnv ce)),
            StreamWrite (newLogStream (launchEnv ce)), StreamWrite (newLogStream (launchEnv ce)),
            StreamWrite (newLogStream (launchEnv ce)), StreamWrite (newLogStream (launchEnv ce))]
       \<and> snd (snd (callTool ce (browser_launch args) s)) =
           ''Browser launched with session ID: '' @ sid @ '' (headless: ''
             @ showBool (case headless args of None \<Rightarrow> True | Some h \<Rightarrow> h) @ '')''
       \<and> sessions (fst (callTool ce (browser_launch args) s)) =
           sessions s @
             [(sid, \<lparr>browser = b, browserContext = c, pages = [(''main'', p)],
                     lastActivity = launchClock (launchEnv ce),
                     createdAt = launchClock (launchEnv ce),
                     logStreams = [(''main'', newLogStream (launchEnv ce))]\<rparr>)]"
proof -
  let ?s0 = "if sid \<noteq> [] then updateSessionActivity (clock1 ce) (clock2 ce) sid s else s"
  from fresh have none: "Map_get (sessions s) sid = None" by (simp add: Map_has_def)
  then have s0: "sessions ?s0 = sessions s" by (simp add: updateSessionActivity_sessions)
  then have fresh0: "\<not> Map_has (sessions ?s0) (a_sessionId args)" using fresh sid by simp
  have lb: "launchBrowser (launchEnv ce) args ?s0 =
      (?s0\<lparr>sessions := sessions s @
             [(sid, \<lparr>browser = b, browserContext = c, pages = [(''main'', p)],
                     lastActivity = launchClock (launchEnv ce),
                     createdAt = launchClock (launchEnv ce),
                     logStreams = [(''main'', newLogStream (launchEnv ce))]\<rparr>)]\<rparr>,
       [ChromiumLaunch (case headless args of None \<Rightarrow> True | Some h \<Rightarrow> h),
            NewContext b (case viewport args of None \<Rightarrow> (1920, 1080) | Some v \<Rightarrow> v),
            NewPage c,
            CreateWriteStream (newLogStream (launchEnv ce)),
            StreamWrite (newLogStream (launchEnv ce)), StreamWrite (newLogStream (launchEnv ce)),
            StreamWrite (newLogStream (launchEnv ce)), StreamWrite (newLogStream (launchEnv ce))],
       Inr (''Browser launched with session ID: '' @ sid @ '' (headless: ''
             @ showBool (case headless args of None \<Rightarrow> True | Some h \<Rightarrow> h) @ '')''))"
    using fresh fresh0 drv sid
    unfolding launchBrowser_def Let_def setupPageLogging_def s0
    by (simp add: Map_set_fresh Map_set_last Map_get_fresh_append)
  have "callTool ce (browser_launch args) s =
      (fst (launchBrowser (launchEnv ce) args ?s0),
       fst (snd (launchBrowser (launchEnv ce) args ?s0)),
       (case snd (snd (launchBrowser (launchEnv ce) args ?s0)) of
          Inr answer \<Rightarrow> answer | Inl message \<Rightarrow> ''Error: '' @ message))"
    using sid by (simp add: callTool_def callSessionId_def Let_def split: prod.split sum.split)
  then show ?thesis unfolding lb by simp
qed

text \<open>
  Claim C7, as amended. Take a sequence of \<^verbatim>\<open>browser_launch\<close> calls with the same
  \<^verbatim>\<open>sessionId\<close>, started when no browser session has that id, whose first launch the
  driver completes. Only the first call creates a session: the driver calls of the whole
  sequence are those of the first call, with one launch, and every later call answers
  that the session already exists. The created entry keeps its handle, its \<open>createdAt\<close>,
  its pages and its log stream; the browser sessions under other ids and the Electron
  sessions under other ids are unchanged, and so are the keys of both maps apart from the
  new id. The one thing that later calls change is the activity time: for a non-empty id
  the request handler sets \<open>lastActivity\<close> of the entry, and of an Electron session under
  the same id if there is one, to the clock of the latest call.
\<close>

theorem repeated_launch_keeps_session:
  assumes fresh: "\<not> Map_has (sessions s) sid"
    and sid: "a_sessionId args = sid"
    and drv: "launchResult (launchEnv ce) = Inr b" "newContextResult (launchEnv ce) = Inr c"
      "newPageResult (launchEnv ce) = Inr p"
    and rest: "\<forall>c \<in> set calls. \<exists>args. snd c = browser_launch args \<and> a_sessionId args = sid"
  shows "fst (snd (callTools ((ce, browser_launch args) # calls) s))
           = fst (snd (callTool ce (browser_launch args) s))
       \<and> launches (fst (snd (callTools ((ce, browser_launch args) # calls) s))) = 1
       \<and> snd (snd (callTools ((ce, browser_launch args) # calls) s))
           = (''Browser launched with session ID: '' @ sid @ '' (headless: ''
                @ showBool (case headless args of None \<Rightarrow> True | Some h \<Rightarrow> h) @ '')'')
             # replicate (length calls) (''Session '' @ sid @ '' already exists'')
       \<and> map fst (sessions (fst (callTools ((ce, browser_launch args) # calls) s)))
           = map fst (sessions s) @ [sid]
       \<and> Map_get (sessions (fst (callTools ((ce, browser_launch args) # calls) s))) sid
           = Some \<lparr>browser = b, browserContext = c, pages = [(''main'', p)],
                   lastActivity = (if sid = [] \<or> calls = [] then launchClock (launchEnv ce)
                                   else clock1 (fst (last calls))),
                   createdAt = launchClock (launchEnv ce),
                   logStreams = [(''main'', newLogStream (launchEnv ce))]\<rparr>
       \<and> (\<forall>k. k \<noteq> sid \<longrightarrow>
             Map_get (sessions (fst (callTools ((ce, browser_launch args) # calls) s))) k
               = Map_get (sessions s) k)
       \<and> map fst (electronSessions (fst (callTools ((ce, browser_launch args) # calls) s)))
           = map fst (electronSessions s)
       \<and> (\<forall>k. k \<noteq> sid \<longrightarrow>
             Map_get (electronSessions (fst (callTools ((ce, browser_launch args) # calls) s))) k
               = Map_get (electronSessions s) k)
       \<and> Map_get (electronSessions (fst (callTools ((ce, browser_launch args) # calls) s))) sid
           = (if sid = [] then Map_get (electronSessions s) sid
              else map_option
                     (\<lambda>e. e\<lparr>e_lastActivity :=
                               clock2 (fst (last ((ce, browser_launch args) # calls)))\<rparr>)
                     (Map_get (electronSessions s) sid))
       \<and> cleanupTimer (fst (callTools ((ce, browser_launch args) # calls) s)) = cleanupTimer s
       \<and> isShuttingDown (fst (callTools ((ce, browser_launch args) # calls) s)) = isShuttingDown s"
proof -
  let ?entry = "\<lparr>browser = b, browserContext = c, pages = [(''main'', p)],
                  lastActivity = launchClock (launchEnv ce),
                  createdAt = launchClock (launchEnv ce),
                  logStreams = [(''main'', newLogStream (launchEnv ce))]\<rparr>"
  let ?hl = "case headless args of None \<Rightarrow> True | Some h \<Rightarrow> h"
  note first = callTool_first_launch [OF fresh sid drv]
  obtain s1 tr1 answer where r1: "callTool ce (browser_launch args) s = (s1, tr1, answer)"
    by (cases "callTool ce (browser_launch args) s")
  obtain s2 tr2 texts where r2: "callTools calls s1 = (s2, tr2, texts)"
    by (cases "callTools calls s1")
  have all: "callTools ((ce, browser_launch args) # calls) s = (s2, tr1 @ tr2, answer # texts)"
    by (simp add: r1 r2)
  from first r1 have tr1: "launches tr1 = 1"
    and answer: "answer = ''Browser launched with session ID: '' @ sid @ '' (headless: ''
                @ showBool ?hl @ '')''"
    and ss1: "sessions s1 = sessions s @ [(sid, ?entry)]"
    by simp_all
  have g1: "Map_get (sessions s1) sid = Some ?entry"
    unfolding ss1 using fresh by (simp add: Map_get_fresh_append)
  have o1: "\<forall>k. k \<noteq> sid \<longrightarrow> Map_get (sessions s1) k = Map_get (sessions s) k"
    unfolding ss1 using fresh by (simp add: Map_get_fresh_append)
  note ex = relaunch_existing [OF g1 rest, unfolded r2 fst_conv snd_conv]
  have allcalls: "\<forall>c \<in> set ((ce, browser_launch args) # calls).
      \<exists>args. snd c = browser_launch args \<and> a_sessionId args = sid"
    using sid rest by simp
  note el = launch_calls_rest [OF allcalls, of s, unfolded all fst_conv]
  have b1: "tr1 @ tr2 = tr1" using ex by simp
  have b2: "answer # texts = (''Browser launched with session ID: '' @ sid @ '' (headless: ''
                @ showBool ?hl @ '')'')
             # replicate (length calls) (''Session '' @ sid @ '' already exists'')"
    using ex answer by simp
  have b3: "map fst (sessions s2) = map fst (sessions s) @ [sid]"
    using ex ss1 by simp
  have b4: "Map_get (sessions s2) sid
           = Some \<lparr>browser = b, browserContext = c, pages = [(''main'', p)],
                   lastActivity = (if sid = [] \<or> calls = [] then launchClock (launchEnv ce)
                                   else clock1 (fst (last calls))),
                   createdAt = launchClock (launchEnv ce),
                   logStreams = [(''main'', newLogStream (launchEnv ce))]\<rparr>"
    using ex by simp
  have b5: "\<forall>k. k \<noteq> sid \<longrightarrow> Map_get (sessions s2) k = Map_get (sessions s) k"
    using ex o1 by simp
  show ?thesis
    unfolding all r1 fst_conv snd_conv b1 b2
    using tr1 b3 b4 b5 el by simp
qed

theorem repeated_launch_keeps_session_witness:
  "\<not> Map_has (sessions example_server) ''e''
   \<and> launches (fst (snd (callTools [(example_call_env, launch_e), (later_call_env, launch_e)]
        example_server))) = 1
   \<and> snd (snd (callTools [(example_call_env, launch_e), (later_call_env, launch_e)] example_server))
       = [''Browser launched with session ID: e (headless: true)'', ''Session e already exists'']
   \<and> Map_get (sessions (fst (callTools [(example_call_env, launch_e), (later_call_env, launch_e)]
        example_server))) ''e''
       = Some \<lparr>browser = 7, browserContext = 107, pages = [(''main'', 207)],
               lastActivity = 2000500, createdAt = 2000000, logStreams = [(''main'', 17)]\<rparr>
   \<and> Map_get (electronSessions (fst (callTools [(example_call_env, launch_e), (later_call_env, launch_e)]
        example_server))) ''e''
       = Some (mkElectron 5 1 2000501)"
proof -
  have h1: "\<not> Map_has (sessions example_server) ''e''"
    by (simp add: example_server_def Map_has_def Map_get_def)
  have h2: "a_sessionId \<lparr>a_sessionId = ''e'', headless = None, viewport = None\<rparr> = ''e''" by simp
  have h3: "launchResult (launchEnv example_call_env) = Inr 7"
    and h4: "newContextResult (launchEnv example_call_env) = Inr 107"
    and h5: "newPageResult (launchEnv example_call_env) = Inr 207"
    by (simp_all add: example_call_env_def)
  have h6: "\<forall>c \<in> set [(later_call_env, launch_e)].
      \<exists>args. snd c = browser_launch args \<and> a_sessionId args = ''e''"
    by (simp add: launch_e_def)
  note t = repeated_launch_keeps_session [OF h1 h2 h3 h4 h5 h6, folded launch_e_def]
  have e: "Map_get (electronSessions example_server) ''e'' = Some (mkElectron 5 1 0)"
    by (simp add: example_server_def Map_get_def)
  have c: "launchClock (launchEnv example_call_env) = 2000000"
    "newLogStream (launchEnv example_call_env) = 17"
    "clock1 later_call_env = 2000500" "clock2 later_call_env = 2000501"
    by (simp_all add: example_call_env_def later_call_env_def)
  show ?thesis
    using h1 t [THEN conjunct2]
    by (simp del: callTools.simps add: e c mkElectron_def showBool_def)
qed

text \<open>
  The claim as stated leaves the entry unchanged. A second \<^verbatim>\<open>browser_launch\<close> for the
  session \<open>a\<close> is answered with \<^verbatim>\<open>already exists\<close> and moves its \<open>lastActivity\<close> from
  \<open>150000\<close> to \<open>2000000\<close>.
\<close>

theorem repeated_launch_refreshes_activity_counterexample:
  "Map_get (sessions example_server) ''a'' = Some (mkSession 1 30 150000 [(''main'', 11)])
   \<and> snd (snd (callTool example_call_env relaunch_a example_server)) = ''Session a already exists''
   \<and> Map_get (sessions (fst (callTool example_call_env relaunch_a example_server))) ''a''
       = Some (mkSession 1 30 2000000 [(''main'', 11)])
   \<and> Map_get (sessions (fst (callTool example_call_env relaunch_a example_server))) ''a''
       \<noteq> Map_get (sessions example_server) ''a''"
  by (simp add: callTool_def callSessionId_def relaunch_a_def example_call_env_def
      updateSessionActivity_def launchBrowser_def Map_get_def Map_has_def Let_def example_server_def mkSession_def mkElectron_def)

subsection \<open>Rendering a navigation and a URL assertion\<close>












end
